theory Spec2Isabelle
  imports Main "HOL-Library.Word"
begin

section \<open>Label sets, the caller's slices and the label store\<close>

text \<open>
  A label set (Go: \<open>labels.Labels\<close>) is a list of name/value pairs. The slices that the
  callers of the relabel component own live in an explicit store: a slice is the index of
  its cell, \<open>Copy\<close> allocates a new cell. The store is what makes the aliasing between the
  caller's slice and the slice handed to the relabel rules visible.
\<close>

type_synonym Label = "string \<times> string"
type_synonym Labels = "Label list"
type_synonym heap = "Labels list"

definition Copy :: "heap \<Rightarrow> nat \<Rightarrow> heap \<times> nat" where
  "Copy h a = (h @ [h ! a], length h)"

text \<open>
  Modelled from the spec: the label store (\<open>labelstore.LabelStore\<close>, not among the sources).
  \<open>GetOrAddGlobalRefID\<close> returns the identity already given to a label set, or the next
  value of a monotonically increasing counter; an identity is never reused. The identity is
  a \<open>uint64\<close> in the code; the counter is a natural number here, the wrap-around after
  \<open>2 ^ 64\<close> allocations being outside what the spec describes.
\<close>

record LabelStore =
  ids :: "(Labels \<times> nat) list"
  next_id :: nat

text \<open>
  Modelled from the spec: \<open>GetOrAddGlobalRefID\<close> of the label store (not among the
  sources).
\<close>

definition GetOrAddGlobalRefID :: "LabelStore \<Rightarrow> Labels \<Rightarrow> LabelStore \<times> nat" where
  "GetOrAddGlobalRefID s l =
     (case map_of (ids s) l of
        Some k \<Rightarrow> (s, k)
      | None \<Rightarrow> (let k = next_id s + 1 in (s\<lparr>ids := (l, k) # ids s, next_id := k\<rparr>, k)))"

section \<open>The LRU cache\<close>

text \<open>
  The cache of the library \<open>hashicorp/golang-lru\<close>: a bounded list of entries, most recently
  used first. \<open>lru_New\<close> fails for a size that is not positive; \<open>Get\<close> and \<open>Add\<close> move the
  entry to the front, \<open>Add\<close> of a new key beyond the capacity evicts the oldest entry.
\<close>

record ('k, 'v) lru =
  lru_size :: nat
  lru_items :: "('k \<times> 'v) list"

definition lru_New :: "int \<Rightarrow> string + ('k, 'v) lru" where
  "lru_New n = (if n \<le> 0 then Inl ''must provide a positive size''
                else Inr \<lparr>lru_size = nat n, lru_items = []\<rparr>)"

definition lru_del :: "'k \<Rightarrow> ('k \<times> 'v) list \<Rightarrow> ('k \<times> 'v) list" where
  "lru_del k xs = filter (\<lambda>e. fst e \<noteq> k) xs"

definition lru_Get :: "('k, 'v) lru \<Rightarrow> 'k \<Rightarrow> ('k, 'v) lru \<times> 'v option" where
  "lru_Get c k =
     (case map_of (lru_items c) k of
        None \<Rightarrow> (c, None)
      | Some v \<Rightarrow> (c\<lparr>lru_items := (k, v) # lru_del k (lru_items c)\<rparr>, Some v))"

definition lru_Add :: "('k, 'v) lru \<Rightarrow> 'k \<Rightarrow> 'v \<Rightarrow> ('k, 'v) lru" where
  "lru_Add c k v =
     (case map_of (lru_items c) k of
        Some _ \<Rightarrow> c\<lparr>lru_items := (k, v) # lru_del k (lru_items c)\<rparr>
      | None \<Rightarrow>
          (let xs = (k, v) # lru_items c
           in c\<lparr>lru_items := (if length xs > lru_size c then butlast xs else xs)\<rparr>))"

definition lru_Remove :: "('k, 'v) lru \<Rightarrow> 'k \<Rightarrow> ('k, 'v) lru" where
  "lru_Remove c k = c\<lparr>lru_items := lru_del k (lru_items c)\<rparr>"

definition lru_Len :: "('k, 'v) lru \<Rightarrow> nat" where
  "lru_Len c = length (lru_items c)"

section \<open>The prometheus.relabel component\<close>

text \<open>
  \<open>Arguments\<close>, with \<open>SetToDefault\<close> and \<open>Validate\<close>. \<open>CacheSize\<close> is a Go \<open>int\<close>; no
  arithmetic is done on it, so it is an integer here.
\<close>

record ('a, 'r) Arguments =
  ForwardTo :: "'a list"
  MetricRelabelConfigs :: "'r list"
  CacheSize :: int

definition SetToDefault :: "('a, 'r) Arguments \<Rightarrow> ('a, 'r) Arguments" where
  "SetToDefault arg = \<lparr>ForwardTo = [], MetricRelabelConfigs = [], CacheSize = 100000\<rparr>"

datatype validate_error = MaxCacheSizeNotPositive int

definition Validate :: "('a, 'r) Arguments \<Rightarrow> validate_error option" where
  "Validate arg = (if CacheSize arg \<le> 0 then Some (MaxCacheSizeNotPositive (CacheSize arg))
                   else None)"

text \<open>
  What the component calls and is not part of it: \<open>toProm\<close> is
  \<open>alloy_relabel.ComponentToPromRelabelConfigs\<close>; \<open>proc\<close> is \<open>relabel.Process\<close> of the
  Prometheus library, which is given a slice and the rules, may overwrite the slice it is
  given, and returns either the relabelled labels (keep) or nothing (the series is
  dropped). The first component of the result of \<open>proc\<close> is what the slice holds afterwards.
\<close>

record ('r, 'p) deps =
  toProm :: "'r list \<Rightarrow> 'p list"
  proc :: "'p list \<Rightarrow> Labels \<Rightarrow> Labels \<times> Labels option"

definition Process :: "('r, 'p) deps \<Rightarrow> 'p list \<Rightarrow> heap \<Rightarrow> nat \<Rightarrow> heap \<times> Labels \<times> bool" where
  "Process D cfgs h a =
     (case proc D cfgs (h ! a) of
        (inplace, None) \<Rightarrow> (h[a := inplace], [], False)
      | (inplace, Some ret) \<Rightarrow> (h[a := inplace], ret, True))"

record labelAndID =
  labels :: Labels
  id_ref :: nat

type_synonym relabel_cache = "(nat, labelAndID option) lru"

text \<open>
  \<open>Options\<close> is what the runtime hands to \<open>New\<close>: the component's identity, the two
  services looked up with \<open>GetServiceData\<close> (or the error of the lookup) and the error, if
  any, of registering the metrics.

  The state of a component. \<open>cache = None\<close> is a cache that was not built (\<open>lru.New\<close>
  failed): every operation on it is a nil dereference. The counters and the gauge are the
  component's metrics; \<open>exported\<close> is the last value handed to \<open>OnStateChange\<close>.
\<close>

record Options =
  opts_ID :: string
  labelstoreData :: "string + LabelStore"
  livedebuggingData :: "string + unit"
  registerErr :: "string option"

record ('a, 'r, 'p) Component =
  opts :: Options
  mrc :: "'p list"
  fanout :: "'a list"
  exported :: "'r list"
  exited :: bool
  ls :: LabelStore
  cache :: "relabel_cache option"
  metricsProcessed :: nat
  metricsOutgoing :: nat
  cacheHits :: nat
  cacheMisses :: nat
  cacheSize :: nat
  cacheDeletes :: nat

text \<open>The cache accessors. A result \<open>None\<close> is the panic of a nil dereference.\<close>

definition getFromCache ::
  "('a, 'r, 'p) Component \<Rightarrow> nat \<Rightarrow> (('a, 'r, 'p) Component \<times> labelAndID option \<times> bool) option" where
  "getFromCache c i =
     (case cache c of
        None \<Rightarrow> None
      | Some l \<Rightarrow>
          (case lru_Get l i of
             (l', None) \<Rightarrow> Some (c\<lparr>cache := Some l'\<rparr>, None, False)
           | (l', Some fm) \<Rightarrow> Some (c\<lparr>cache := Some l'\<rparr>, fm, True)))"

definition deleteFromCache :: "('a, 'r, 'p) Component \<Rightarrow> nat \<Rightarrow> ('a, 'r, 'p) Component option" where
  "deleteFromCache c i =
     (let c1 = c\<lparr>cacheDeletes := cacheDeletes c + 1\<rparr>
      in case cache c1 of
           None \<Rightarrow> None
         | Some l \<Rightarrow> Some (c1\<lparr>cache := Some (lru_Remove l i)\<rparr>))"

definition clearCache :: "('a, 'r, 'p) Component \<Rightarrow> int \<Rightarrow> ('a, 'r, 'p) Component" where
  "clearCache c n =
     (case lru_New n of
        Inl _ \<Rightarrow> c\<lparr>cache := None\<rparr>
      | Inr l \<Rightarrow> c\<lparr>cache := Some l\<rparr>)"

definition addToCache ::
  "('a, 'r, 'p) Component \<Rightarrow> nat \<Rightarrow> Labels \<Rightarrow> bool \<Rightarrow> ('a, 'r, 'p) Component option" where
  "addToCache c originalID lbls keep =
     (if \<not> keep then
        (case cache c of
           None \<Rightarrow> None
         | Some l \<Rightarrow> Some (c\<lparr>cache := Some (lru_Add l originalID None)\<rparr>))
      else
        (case GetOrAddGlobalRefID (ls c) lbls of
           (s, newGlobal) \<Rightarrow>
             (case cache c of
                None \<Rightarrow> None
              | Some l \<Rightarrow>
                  Some (c\<lparr>ls := s,
                          cache := Some (lru_Add l originalID
                                     (Some \<lparr>labels = lbls, id_ref = newGlobal\<rparr>))\<rparr>))))"

text \<open>
  A sample value is its IEEE-754 bit pattern; \<open>value.IsStaleNaN\<close> compares the bits with
  the stale marker.
\<close>

definition StaleNaN :: "64 word" where
  "StaleNaN = 0x7ff0000000000002"

definition IsStaleNaN :: "64 word \<Rightarrow> bool" where
  "IsStaleNaN v = (v = StaleNaN)"

text \<open>
  \<open>Component.relabel\<close>. The argument \<open>lbls\<close> is the caller's slice, a cell of the store.
  The result carries the component and the store after the call, and the labels returned.
  The live-debugging record is built from the two label sets by reading them only and is
  left out. \<open>relabel_lookup\<close> is the middle of the function, the lookup with its two
  branches (hit: reuse the cached labels; miss: \<open>Process\<close> on a copy, then \<open>addToCache\<close>);
  \<open>relabel\<close> is the function.
\<close>

definition relabel_lookup ::
  "('r, 'p) deps \<Rightarrow> ('a, 'r, 'p) Component \<Rightarrow> heap \<Rightarrow> nat \<Rightarrow> nat \<Rightarrow>
     (('a, 'r, 'p) Component \<times> heap \<times> Labels) option" where
  "relabel_lookup D c h lbls globalRef =
     (case getFromCache c globalRef of
        None \<Rightarrow> None
      | Some (c1, newLbls, found) \<Rightarrow>
          (if found then
             Some (c1\<lparr>cacheHits := cacheHits c1 + 1\<rparr>, h,
                   (case newLbls of None \<Rightarrow> [] | Some e \<Rightarrow> labels e))
           else
             (case Copy h lbls of
                (h1, cp) \<Rightarrow>
                  (case Process D (mrc c1) h1 cp of
                     (h2, relabelled, keep) \<Rightarrow>
                       (case addToCache (c1\<lparr>cacheMisses := cacheMisses c1 + 1\<rparr>)
                               globalRef relabelled keep of
                          None \<Rightarrow> None
                        | Some c2 \<Rightarrow> Some (c2, h2, relabelled))))))"

definition relabel ::
  "('r, 'p) deps \<Rightarrow> ('a, 'r, 'p) Component \<Rightarrow> 64 word \<Rightarrow> heap \<Rightarrow> nat \<Rightarrow>
     (('a, 'r, 'p) Component \<times> heap \<times> Labels) option" where
  "relabel D c val h lbls =
     (case GetOrAddGlobalRefID (ls c) (h ! lbls) of
        (s, globalRef) \<Rightarrow>
          (case relabel_lookup D (c\<lparr>metricsProcessed := metricsProcessed c + 1, ls := s\<rparr>)
                  h lbls globalRef of
             None \<Rightarrow> None
           | Some (c1, h1, relabelled) \<Rightarrow>
               (case (if IsStaleNaN val then deleteFromCache c1 globalRef else Some c1) of
                  None \<Rightarrow> None
                | Some c2 \<Rightarrow>
                    (case cache c2 of
                       None \<Rightarrow> None
                     | Some l \<Rightarrow> Some (c2\<lparr>cacheSize := lru_Len l\<rparr>, h1, relabelled)))))"

text \<open>\<open>Component.Update\<close> and \<open>Component.Run\<close> (the state once \<open>Run\<close> has returned).\<close>

definition Update ::
  "('r, 'p) deps \<Rightarrow> ('a, 'r, 'p) Component \<Rightarrow> ('a, 'r) Arguments \<Rightarrow> ('a, 'r, 'p) Component" where
  "Update D c newArgs =
     (clearCache c (CacheSize newArgs))
       \<lparr>mrc := toProm D (MetricRelabelConfigs newArgs),
        fanout := ForwardTo newArgs,
        exported := MetricRelabelConfigs newArgs\<rparr>"

definition Run :: "('a, 'r, 'p) Component \<Rightarrow> ('a, 'r, 'p) Component" where
  "Run c = c\<lparr>exited := True\<rparr>"

text \<open>
  The receiver's four hooks. What is forwarded to the next appender is recorded in a log;
  \<open>reply\<close> is the answer of the next appender. A hook returns the series reference and the
  error; the result \<open>None\<close> is a panic.
\<close>

type_synonym exemplar = string
type_synonym metadata = string
type_synonym histogram = string

datatype forwarded =
  Sample Labels int "64 word"
| Exemplar Labels exemplar
| Metadata Labels metadata
| Histogram Labels int histogram histogram

type_synonym ('a, 'r, 'p) world = "('a, 'r, 'p) Component \<times> heap \<times> forwarded list"

type_synonym ('a, 'r, 'p) hook_result =
  "(('a, 'r, 'p) world \<times> nat \<times> string option) option"

definition exitedError :: "('a, 'r, 'p) Component \<Rightarrow> string" where
  "exitedError c = opts_ID (opts c) @ '' has exited''"

definition AppendHook ::
  "('r, 'p) deps \<Rightarrow> (forwarded \<Rightarrow> nat \<times> string option) \<Rightarrow> ('a, 'r, 'p) world \<Rightarrow>
     nat \<Rightarrow> int \<Rightarrow> 64 word \<Rightarrow> ('a, 'r, 'p) hook_result" where
  "AppendHook D reply w l t v =
     (case w of (c, h, sent) \<Rightarrow>
        if exited c then Some (w, 0, Some (exitedError c))
        else
          (case relabel D c v h l of
             None \<Rightarrow> None
           | Some (c1, h1, newLbl) \<Rightarrow>
               if newLbl = [] then Some ((c1, h1, sent), 0, None)
               else Some ((c1\<lparr>metricsOutgoing := metricsOutgoing c1 + 1\<rparr>, h1,
                            sent @ [Sample newLbl t v]), reply (Sample newLbl t v))))"

definition ExemplarHook ::
  "('r, 'p) deps \<Rightarrow> (forwarded \<Rightarrow> nat \<times> string option) \<Rightarrow> ('a, 'r, 'p) world \<Rightarrow>
     nat \<Rightarrow> exemplar \<Rightarrow> ('a, 'r, 'p) hook_result" where
  "ExemplarHook D reply w l e =
     (case w of (c, h, sent) \<Rightarrow>
        if exited c then Some (w, 0, Some (exitedError c))
        else
          (case relabel D c 0 h l of
             None \<Rightarrow> None
           | Some (c1, h1, newLbl) \<Rightarrow>
               if newLbl = [] then Some ((c1, h1, sent), 0, None)
               else Some ((c1, h1, sent @ [Exemplar newLbl e]), reply (Exemplar newLbl e))))"

definition MetadataHook ::
  "('r, 'p) deps \<Rightarrow> (forwarded \<Rightarrow> nat \<times> string option) \<Rightarrow> ('a, 'r, 'p) world \<Rightarrow>
     nat \<Rightarrow> metadata \<Rightarrow> ('a, 'r, 'p) hook_result" where
  "MetadataHook D reply w l m =
     (case w of (c, h, sent) \<Rightarrow>
        if exited c then Some (w, 0, Some (exitedError c))
        else
          (case relabel D c 0 h l of
             None \<Rightarrow> None
           | Some (c1, h1, newLbl) \<Rightarrow>
               if newLbl = [] then Some ((c1, h1, sent), 0, None)
               else Some ((c1, h1, sent @ [Metadata newLbl m]), reply (Metadata newLbl m))))"

definition HistogramHook ::
  "('r, 'p) deps \<Rightarrow> (forwarded \<Rightarrow> nat \<times> string option) \<Rightarrow> ('a, 'r, 'p) world \<Rightarrow>
     nat \<Rightarrow> int \<Rightarrow> histogram \<Rightarrow> histogram \<Rightarrow> ('a, 'r, 'p) hook_result" where
  "HistogramHook D reply w l t hh fh =
     (case w of (c, h, sent) \<Rightarrow>
        if exited c then Some (w, 0, Some (exitedError c))
        else
          (case relabel D c 0 h l of
             None \<Rightarrow> None
           | Some (c1, h1, newLbl) \<Rightarrow>
               if newLbl = [] then Some ((c1, h1, sent), 0, None)
               else Some ((c1, h1, sent @ [Histogram newLbl t hh fh]),
                          reply (Histogram newLbl t hh fh))))"

text \<open>\<open>New\<close>: the constructor, with its four ways to fail, ending in the first \<open>Update\<close>.\<close>

definition New ::
  "('r, 'p) deps \<Rightarrow> Options \<Rightarrow> ('a, 'r) Arguments \<Rightarrow> string + ('a, 'r, 'p) Component" where
  "New D opt args =
     (case (lru_New (CacheSize args) :: string + relabel_cache) of
        Inl err \<Rightarrow> Inl err
      | Inr cache0 \<Rightarrow>
          (case livedebuggingData opt of
             Inl err \<Rightarrow> Inl err
           | Inr _ \<Rightarrow>
               (case labelstoreData opt of
                  Inl err \<Rightarrow> Inl err
                | Inr data \<Rightarrow>
                    (case registerErr opt of
                       Some err \<Rightarrow> Inl err
                     | None \<Rightarrow>
                         Inr (Update D
                                \<lparr>opts = opt, mrc = [], fanout = ForwardTo args,
                                 exported = MetricRelabelConfigs args, exited = False,
                                 ls = data, cache = Some cache0,
                                 metricsProcessed = 0, metricsOutgoing = 0, cacheHits = 0,
                                 cacheMisses = 0, cacheSize = 0, cacheDeletes = 0\<rparr>
                                args)))))"

text \<open>
  The calls a component receives during its life: appends through the receiver, each with
  the caller's own slice (a new cell of the store holding the label set), updates from the
  scheduler, and the return of \<open>Run\<close>.
\<close>

datatype ('a, 'r) call =
  CallAppend Labels int "64 word"
| CallExemplar Labels exemplar
| CallMetadata Labels metadata
| CallHistogram Labels int histogram histogram
| CallUpdate "('a, 'r) Arguments"
| CallRunReturns

definition with_slice :: "('a, 'r, 'p) world \<Rightarrow> Labels \<Rightarrow> ('a, 'r, 'p) world \<times> nat" where
  "with_slice w l = (case w of (c, h, sent) \<Rightarrow> ((c, h @ [l], sent), length h))"

fun step ::
  "('r, 'p) deps \<Rightarrow> (forwarded \<Rightarrow> nat \<times> string option) \<Rightarrow> ('a, 'r, 'p) world \<Rightarrow>
     ('a, 'r) call \<Rightarrow> ('a, 'r, 'p) world option" where
  "step D reply w (CallAppend l t v) =
     (case with_slice w l of (w1, a) \<Rightarrow> map_option fst (AppendHook D reply w1 a t v))"
| "step D reply w (CallExemplar l e) =
     (case with_slice w l of (w1, a) \<Rightarrow> map_option fst (ExemplarHook D reply w1 a e))"
| "step D reply w (CallMetadata l m) =
     (case with_slice w l of (w1, a) \<Rightarrow> map_option fst (MetadataHook D reply w1 a m))"
| "step D reply w (CallHistogram l t hh fh) =
     (case with_slice w l of (w1, a) \<Rightarrow> map_option fst (HistogramHook D reply w1 a t hh fh))"
| "step D reply w (CallUpdate args) =
     (case w of (c, h, sent) \<Rightarrow> Some (Update D c args, h, sent))"
| "step D reply w CallRunReturns =
     (case w of (c, h, sent) \<Rightarrow> Some (Run c, h, sent))"

fun run_calls ::
  "('r, 'p) deps \<Rightarrow> (forwarded \<Rightarrow> nat \<times> string option) \<Rightarrow> ('a, 'r, 'p) world \<Rightarrow>
     ('a, 'r) call list \<Rightarrow> ('a, 'r, 'p) world option" where
  "run_calls D reply w [] = Some w"
| "run_calls D reply w (x # xs) =
     (case step D reply w x of None \<Rightarrow> None | Some w1 \<Rightarrow> run_calls D reply w1 xs)"

text \<open>A call the scheduler can make: the arguments of an update have passed \<open>Validate\<close>.\<close>

fun call_valid :: "('a, 'r) call \<Rightarrow> bool" where
  "call_valid (CallUpdate args) = (Validate args = None)"
| "call_valid _ = True"

section \<open>What the cache holds: the notions the properties are stated with\<close>

text \<open>
  The result of applying the rules to a fresh copy of a label set (nothing when the series
  is dropped), the labels a cache entry stands for, the identity the store gives to a label
  set, the entry the cache holds for an identity, and the entry a miss inserts.
\<close>

definition rules_output :: "('r, 'p) deps \<Rightarrow> 'p list \<Rightarrow> Labels \<Rightarrow> Labels" where
  "rules_output D cfgs l = (case snd (proc D cfgs l) of None \<Rightarrow> [] | Some r \<Rightarrow> r)"

definition entry_labels :: "labelAndID option \<Rightarrow> Labels" where
  "entry_labels e = (case e of None \<Rightarrow> [] | Some x \<Rightarrow> labels x)"

definition globalRefOf :: "LabelStore \<Rightarrow> Labels \<Rightarrow> nat" where
  "globalRefOf s l = snd (GetOrAddGlobalRefID s l)"

definition cached :: "('a, 'r, 'p) Component \<Rightarrow> nat \<Rightarrow> labelAndID option option" where
  "cached c k = (case cache c of None \<Rightarrow> None | Some l \<Rightarrow> map_of (lru_items l) k)"

definition new_entry :: "('r, 'p) deps \<Rightarrow> ('a, 'r, 'p) Component \<Rightarrow> Labels \<Rightarrow> labelAndID option" where
  "new_entry D c l =
     (case snd (proc D (mrc c) l) of
        None \<Rightarrow> None
      | Some r \<Rightarrow> Some \<lparr>labels = r, id_ref = globalRefOf (fst (GetOrAddGlobalRefID (ls c) l)) r\<rparr>)"

text \<open>
  The label store is well formed when no identity is given twice and none exceeds the
  counter. The cache is consistent with the rules when it is usable, has a positive
  capacity, and each entry is what the current rules give for the label set that owns the
  entry's key.
\<close>

definition ls_ok :: "LabelStore \<Rightarrow> bool" where
  "ls_ok s = (distinct (map snd (ids s)) \<and> (\<forall>e \<in> set (ids s). snd e \<le> next_id s))"

definition entry_ok ::
  "('r, 'p) deps \<Rightarrow> 'p list \<Rightarrow> LabelStore \<Rightarrow> nat \<Rightarrow> labelAndID option \<Rightarrow> bool" where
  "entry_ok D cfgs s k e =
     (\<exists>l. (l, k) \<in> set (ids s) \<and>
        (case snd (proc D cfgs l) of
           None \<Rightarrow> e = None
         | Some r \<Rightarrow> \<exists>i. e = Some \<lparr>labels = r, id_ref = i\<rparr> \<and> (r, i) \<in> set (ids s)))"

definition cache_inv :: "('r, 'p) deps \<Rightarrow> ('a, 'r, 'p) Component \<Rightarrow> bool" where
  "cache_inv D c =
     (ls_ok (ls c) \<and>
      (\<exists>l. cache c = Some l \<and> 0 < lru_size l \<and>
           (\<forall>ke \<in> set (lru_items l). entry_ok D (mrc c) (ls c) (fst ke) (snd ke))))"

definition world_inv :: "('r, 'p) deps \<Rightarrow> ('a, 'r, 'p) world \<Rightarrow> bool" where
  "world_inv D w = (case w of (c, h, sent) \<Rightarrow> cache_inv D c)"

section \<open>The regex stage of the log pipeline\<close>

text \<open>
  The compiled expression is Go's \<open>regexp.Regexp\<close>: the names of its groups (group 0 and
  unnamed groups have the empty name) and its \<open>FindStringSubmatch\<close>, which returns nothing
  when the input does not match and otherwise one string per group, the empty string for a
  group that took no part in the match.
\<close>

record regexp =
  SubexpNames :: "string list"
  FindStringSubmatch :: "string \<Rightarrow> string list option"

record RegexConfig =
  Expression :: string
  Source :: "string option"
  LabelsFromGroups :: bool

datatype stage_error =
  ErrExpressionRequired
| ErrCouldNotCompileRegex string
| ErrEmptyRegexStageSource

text \<open>
  Modelled from the spec: \<open>validateRegexConfig\<close> (the stage's file \<open>regex.go\<close> is not among
  the sources; its test is). The expression is required, an empty source is rejected, and
  the expression is compiled by \<open>Compile\<close>, Go's \<open>regexp.Compile\<close>, whose diagnostic is
  wrapped in \<open>ErrCouldNotCompileRegex\<close>. An absent expression is the empty string, the
  zero value of the field.
\<close>

definition validateRegexConfig ::
  "(string \<Rightarrow> string + regexp) \<Rightarrow> RegexConfig \<Rightarrow> stage_error + regexp" where
  "validateRegexConfig Compile c =
     (if Expression c = [] then Inl ErrExpressionRequired
      else if Source c = Some [] then Inl ErrEmptyRegexStageSource
      else (case Compile (Expression c) of
              Inl diag \<Rightarrow> Inl (ErrCouldNotCompileRegex diag)
            | Inr expr \<Rightarrow> Inr expr))"

text \<open>
  An entry in flight and the values of its extracted map (Go's \<open>interface{}\<close>). The debug
  log of the stage records the two messages the spec names.
\<close>

datatype val = VNil | VBool bool | VInt int | VString string

record Entry =
  Timestamp :: int
  Line :: string
  Labels :: "string \<rightharpoonup> string"
  Extracted :: "string \<rightharpoonup> val"

datatype debug_msg =
  SourceDoesNotExist string
| FailedToConvertSourceValueToString string

record regexStage =
  config :: RegexConfig
  expression :: regexp

text \<open>
  Modelled from the spec: the processing of one entry by the regex stage (\<open>regex.go\<close> is
  not among the sources). The source string is the line, or the value of the source key
  coerced to a string by \<open>getString\<close>; a missing key or a value that cannot be coerced
  logs a debug message and leaves the entry as it is, and so does an input that does not
  match. On a match every named group, group 0 apart, is written to the extracted map, and
  to the labels when \<open>labels_from_groups\<close> is set.
\<close>

fun writeGroups :: "bool \<Rightarrow> (string \<times> string) list \<Rightarrow> Entry \<Rightarrow> Entry" where
  "writeGroups lfg [] e = e"
| "writeGroups lfg ((name, v) # gs) e =
     writeGroups lfg gs
       (if name = [] then e
        else e\<lparr>Labels := (if lfg then (Labels e)(name \<mapsto> v) else Labels e),
               Extracted := (Extracted e)(name \<mapsto> VString v)\<rparr>)"

text \<open>
  Modelled from the spec: the match of the source string and the writing of the groups
  (\<open>regex.go\<close> is not among the sources). \<open>zip\<close> pairs each group name with the string of
  the same index; the first pair, group 0, is left out.
\<close>

definition matchInput :: "regexStage \<Rightarrow> string \<Rightarrow> Entry \<Rightarrow> Entry" where
  "matchInput r input e =
     (case FindStringSubmatch (expression r) input of
        None \<Rightarrow> e
      | Some match \<Rightarrow>
          writeGroups (LabelsFromGroups (config r))
            (tl (zip (SubexpNames (expression r)) match)) e)"

text \<open>
  Modelled from the spec: the choice of the source string, with the two ways to fail
  (\<open>regex.go\<close> is not among the sources).
\<close>

definition regexStage_Process ::
  "(val \<Rightarrow> string option) \<Rightarrow> regexStage \<Rightarrow> Entry \<Rightarrow> Entry \<times> debug_msg list" where
  "regexStage_Process getString r e =
     (case Source (config r) of
        None \<Rightarrow> (matchInput r (Line e) e, [])
      | Some src \<Rightarrow>
          (case Extracted e src of
             None \<Rightarrow> (e, [SourceDoesNotExist src])
           | Some v \<Rightarrow>
               (case getString v of
                  None \<Rightarrow> (e, [FailedToConvertSourceValueToString src])
                | Some input \<Rightarrow> (matchInput r input e, []))))"

section \<open>Introspection of the runtime: \<open>GetComponent\<close> and \<open>ListComponents\<close>\<close>

text \<open>
  A node of the graph. The two component kinds implement \<open>controller.ComponentNode\<close>; the
  other kinds are the spec's configuration blocks, imports and declares.
\<close>

datatype node_kind =
  BuiltinComponentNode | CustomComponentNode | ConfigBlockNode | ImportNode | DeclareNode

record node =
  NodeID :: string
  kind :: node_kind
  Label :: string
  ComponentName :: string
  CurrentHealth :: string
  Arguments_of :: string
  Exports_of :: string
  ModuleIDs :: "string list"
  DataFlowEdgesTo :: "string list"
  Component_of :: string
  DebugInfo_of :: string
  implementsLiveDebugging :: bool

definition isComponentNode :: "node \<Rightarrow> bool" where
  "isComponentNode n = (kind n = BuiltinComponentNode \<or> kind n = CustomComponentNode)"

text \<open>
  Modelled from the spec: the dependency graph (\<open>dag.Graph\<close>, not among the sources), with
  \<open>Dependencies\<close> the targets of the out-edges of a node and \<open>Dependants\<close> the origins of
  its in-edges.
\<close>

record graph =
  nodes :: "node list"
  edges :: "(node \<times> node) list"

text \<open>Modelled from the spec: \<open>Dependencies\<close> of \<open>dag.Graph\<close>, the out-edges of a node.\<close>

definition Dependencies :: "graph \<Rightarrow> node \<Rightarrow> node list" where
  "Dependencies g n = map snd (filter (\<lambda>e. NodeID (fst e) = NodeID n) (edges g))"

text \<open>Modelled from the spec: \<open>Dependants\<close> of \<open>dag.Graph\<close>, the in-edges of a node.\<close>

definition Dependants :: "graph \<Rightarrow> node \<Rightarrow> node list" where
  "Dependants g n = map fst (filter (\<lambda>e. NodeID (snd e) = NodeID n) (edges g))"

text \<open>
  Modelled from the spec: \<open>GetByID\<close> of \<open>dag.Graph\<close>, the lookup of a node by its
  identity, nothing when there is none.
\<close>

definition GetByID :: "graph \<Rightarrow> string \<Rightarrow> node option" where
  "GetByID g i = find (\<lambda>n. NodeID n = i) (nodes g)"

record InfoOptions =
  GetHealth :: bool
  GetArguments :: bool
  GetExports :: bool
  GetDebugInfo :: bool

record component_ID =
  ModuleID :: string
  LocalID :: string

datatype component_Type = TypeBuiltin | TypeCustom

record Info =
  Info_ID :: component_ID
  Info_Label :: string
  Info_Type :: component_Type
  References :: "string list"
  ReferencedBy :: "string list"
  Info_DataFlowEdgesTo :: "string list"
  Info_ComponentName :: string
  Health :: "string option"
  Arguments :: "string option"
  Exports :: "string option"
  Info_ModuleIDs :: "string list"
  Component :: "string option"
  DebugInfo :: "string option"
  LiveDebuggingEnabled :: bool

datatype runtime =
  Runtime (ControllerID: string) (loader_Graph: graph) (loader_Components: "node list")
    (modules: "(string \<times> runtime) list")

definition componentType :: "node \<Rightarrow> component_Type" where
  "componentType cn = (if kind cn = BuiltinComponentNode then TypeBuiltin else TypeCustom)"

definition getComponentDetail :: "runtime \<Rightarrow> node \<Rightarrow> graph \<Rightarrow> InfoOptions \<Rightarrow> Info" where
  "getComponentDetail f cn g opt =
     \<lparr>Info_ID = \<lparr>ModuleID = ControllerID f, LocalID = NodeID cn\<rparr>,
      Info_Label = Label cn,
      Info_Type = componentType cn,
      References = map NodeID (filter isComponentNode (Dependencies g cn)),
      ReferencedBy = map NodeID (filter isComponentNode (Dependants g cn)),
      Info_DataFlowEdgesTo = DataFlowEdgesTo cn,
      Info_ComponentName = ComponentName cn,
      Health = (if GetHealth opt then Some (CurrentHealth cn) else None),
      Arguments = (if GetArguments opt then Some (Arguments_of cn) else None),
      Exports = (if GetExports opt then Some (Exports_of cn) else None),
      Info_ModuleIDs = ModuleIDs cn,
      Component = (if kind cn = BuiltinComponentNode then Some (Component_of cn) else None),
      DebugInfo = (if kind cn = BuiltinComponentNode \<and> GetDebugInfo opt
                   then Some (DebugInfo_of cn) else None),
      LiveDebuggingEnabled = (kind cn = BuiltinComponentNode \<and> implementsLiveDebugging cn)\<rparr>"

datatype provider_error = ErrComponentNotFound | ErrModuleNotFound | ErrNotAComponent component_ID

text \<open>
  \<open>GetComponent\<close> calls itself on the runtime of a module with an empty module identity,
  a call that takes the local branch: the local branch is \<open>GetComponent_local\<close>.
\<close>

definition GetComponent_local :: "runtime \<Rightarrow> component_ID \<Rightarrow> InfoOptions \<Rightarrow> provider_error + Info" where
  "GetComponent_local f i opt =
     (case GetByID (loader_Graph f) (LocalID i) of
        None \<Rightarrow> Inl ErrComponentNotFound
      | Some n \<Rightarrow>
          if \<not> isComponentNode n then Inl (ErrNotAComponent i)
          else Inr (getComponentDetail f n (loader_Graph f) opt))"

definition GetComponent :: "runtime \<Rightarrow> component_ID \<Rightarrow> InfoOptions \<Rightarrow> provider_error + Info" where
  "GetComponent f i opt =
     (if ModuleID i \<noteq> [] then
        (case map_of (modules f) (ModuleID i) of
           None \<Rightarrow> Inl ErrComponentNotFound
         | Some m \<Rightarrow> GetComponent_local m \<lparr>ModuleID = [], LocalID = LocalID i\<rparr> opt)
      else GetComponent_local f i opt)"

definition ListComponents_local :: "runtime \<Rightarrow> InfoOptions \<Rightarrow> Info list" where
  "ListComponents_local f opt =
     map (\<lambda>cn. getComponentDetail f cn (loader_Graph f) opt) (loader_Components f)"

definition ListComponents :: "runtime \<Rightarrow> string \<Rightarrow> InfoOptions \<Rightarrow> provider_error + Info list" where
  "ListComponents f moduleID opt =
     (if moduleID \<noteq> [] then
        (case map_of (modules f) moduleID of
           None \<Rightarrow> Inl ErrModuleNotFound
         | Some m \<Rightarrow> Inr (ListComponents_local m opt))
      else Inr (ListComponents_local f opt))"

text \<open>The runtime a request is answered by: the runtime itself or one of its modules.\<close>

definition answering :: "runtime \<Rightarrow> string \<Rightarrow> runtime option" where
  "answering f moduleID = (if moduleID \<noteq> [] then map_of (modules f) moduleID else Some f)"

section \<open>An instance: one rule that drops \<open>job="ignored"\<close>\<close>

text \<open>
  The instance of the spec's relabel scenario: the rule \<open>drop_ignored\<close> drops every series
  with the label \<open>job="ignored"\<close> and keeps the others as they are. This \<open>Process\<close> also
  overwrites the slice it is given (it leaves the labels in reverse order), which a caller
  would see if the slice were its own.
\<close>

definition demo_proc :: "string list \<Rightarrow> Labels \<Rightarrow> Labels \<times> Labels option" where
  "demo_proc cfgs l =
     (rev l, if ''drop_ignored'' \<in> set cfgs \<and> (''job'', ''ignored'') \<in> set l then None else Some l)"

definition demo_deps :: "(string, string) deps" where
  "demo_deps = \<lparr>toProm = (\<lambda>rs. rs), proc = demo_proc\<rparr>"

definition demo_opts :: Options where
  "demo_opts = \<lparr>opts_ID = ''prometheus.relabel.demo'',
                 labelstoreData = Inr \<lparr>ids = [], next_id = 0\<rparr>,
                 livedebuggingData = Inr (), registerErr = None\<rparr>"

definition demo_args :: "(nat, string) Arguments" where
  "demo_args = \<lparr>ForwardTo = [1], MetricRelabelConfigs = [''drop_ignored''], CacheSize = 2\<rparr>"

definition demo_component :: "(nat, string, string) Component" where
  "demo_component =
     \<lparr>opts = demo_opts, mrc = [''drop_ignored''], fanout = [1], exported = [''drop_ignored''],
      exited = False, ls = \<lparr>ids = [], next_id = 0\<rparr>,
      cache = Some \<lparr>lru_size = 2, lru_items = []\<rparr>,
      metricsProcessed = 0, metricsOutgoing = 0, cacheHits = 0, cacheMisses = 0,
      cacheSize = 0, cacheDeletes = 0\<rparr>"

definition demo_keep :: Labels where
  "demo_keep = [(''inst'', ''x''), (''job'', ''keep'')]"

definition demo_ignored :: Labels where
  "demo_ignored = [(''inst'', ''x''), (''job'', ''ignored'')]"

definition demo_reply :: "forwarded \<Rightarrow> nat \<times> string option" where
  "demo_reply x = (7, None)"

text \<open>
  The three appends of the scenario, and the component and the store they lead to: the
  dropped series is cached as dropped, the kept one with its labels, and the third append
  is a hit. \<open>demo_after_hit\<close> is the component after one more hit on the dropped series.
\<close>

definition demo_calls :: "(nat, string) call list" where
  "demo_calls = [CallAppend demo_ignored 1 0, CallAppend demo_keep 2 0, CallAppend demo_ignored 3 0]"

definition demo_after :: "(nat, string, string) Component" where
  "demo_after =
     \<lparr>opts = demo_opts, mrc = [''drop_ignored''], fanout = [1], exported = [''drop_ignored''],
      exited = False,
      ls = \<lparr>ids = [(demo_keep, 2), (demo_ignored, 1)], next_id = 2\<rparr>,
      cache = Some \<lparr>lru_size = 2,
                    lru_items = [(1, None), (2, Some \<lparr>labels = demo_keep, id_ref = 2\<rparr>)]\<rparr>,
      metricsProcessed = 3, metricsOutgoing = 1, cacheHits = 1, cacheMisses = 2,
      cacheSize = 2, cacheDeletes = 0\<rparr>"

definition demo_heap :: heap where
  "demo_heap = [demo_ignored, rev demo_ignored, demo_keep, rev demo_keep, demo_ignored]"

definition demo_after_hit :: "(nat, string, string) Component" where
  "demo_after_hit = demo_after\<lparr>metricsProcessed := 4, cacheHits := 2\<rparr>"


section \<open>The notions of the stage and introspection properties, and their instances\<close>

text \<open>
  The string a regex stage works on: the line, or the source value coerced to a string
  (none when the key is missing or the value cannot be coerced).
\<close>

definition sourceString :: "(val \<Rightarrow> string option) \<Rightarrow> regexStage \<Rightarrow> Entry \<Rightarrow> string option" where
  "sourceString getString r e =
     (case Source (config r) of
        None \<Rightarrow> Some (Line e)
      | Some src \<Rightarrow> (case Extracted e src of None \<Rightarrow> None | Some v \<Rightarrow> getString v))"

text \<open>
  A list of references projects the component nodes of a list of neighbours when it has one
  entry per component node among them, every entry is the identity of such a node, and
  every such node is listed. An \<open>Info\<close> is homogeneous for a node of a graph when its
  \<open>References\<close> project the dependencies of the node and its \<open>ReferencedBy\<close> the dependants.
\<close>

definition projects_components :: "node list \<Rightarrow> string list \<Rightarrow> bool" where
  "projects_components deps refs =
     (length refs = length (filter isComponentNode deps) \<and>
      (\<forall>r \<in> set refs. \<exists>d \<in> set deps. isComponentNode d \<and> NodeID d = r) \<and>
      (\<forall>d \<in> set deps. isComponentNode d \<longrightarrow> NodeID d \<in> set refs))"

definition homogeneous :: "graph \<Rightarrow> node \<Rightarrow> Info \<Rightarrow> bool" where
  "homogeneous g cn info =
     (projects_components (Dependencies g cn) (References info) \<and>
      projects_components (Dependants g cn) (ReferencedBy info))"

text \<open>
  An instance of the stage: the expression \<open>^HTTP/(?P<protocol_version>.*)$\<close> on the source
  \<open>protocol\<close>, with \<open>labels_from_groups\<close>, as in the stage's tests; and an entry that already
  has a label \<open>protocol_version\<close>.
\<close>

definition demo_http :: regexp where
  "demo_http =
     \<lparr>SubexpNames = [[], ''protocol_version''],
      FindStringSubmatch = (\<lambda>s. if take 5 s = ''HTTP/'' then Some [s, drop 5 s] else None)\<rparr>"

definition demo_Compile :: "string \<Rightarrow> string + regexp" where
  "demo_Compile e =
     (if e = ''^HTTP/(?P<protocol_version>.*)$'' then Inr demo_http
      else Inl (''error parsing regexp: invalid named capture: `'' @ e @ ''`''))"

definition demo_getString :: "val \<Rightarrow> string option" where
  "demo_getString v = (case v of VString s \<Rightarrow> Some s | _ \<Rightarrow> None)"

definition demo_config :: RegexConfig where
  "demo_config = \<lparr>Expression = ''^HTTP/(?P<protocol_version>.*)$'', Source = Some ''protocol'',
                   LabelsFromGroups = True\<rparr>"

definition demo_stage :: regexStage where
  "demo_stage = \<lparr>config = demo_config, expression = demo_http\<rparr>"

definition demo_entry :: "val option \<Rightarrow> Entry" where
  "demo_entry v =
     \<lparr>Timestamp = 0, Line = ''unknown/unknown'',
      Labels = [''protocol_version'' \<mapsto> ''old''],
      Extracted = (\<lambda>k. if k = ''protocol'' then v else None)\<rparr>"

text \<open>
  An instance of the graph: a component that refers to a configuration block and to
  another component, which the configuration block refers to as well.
\<close>

definition demo_node :: "string \<Rightarrow> node_kind \<Rightarrow> node" where
  "demo_node i k =
     \<lparr>NodeID = i, kind = k, Label = [], ComponentName = [], CurrentHealth = ''healthy'',
      Arguments_of = [], Exports_of = [], ModuleIDs = [], DataFlowEdgesTo = [],
      Component_of = [], DebugInfo_of = [], implementsLiveDebugging = False\<rparr>"

definition demo_scrape :: node where
  "demo_scrape = demo_node ''prometheus.scrape.x'' BuiltinComponentNode"

definition demo_relabel :: node where
  "demo_relabel = demo_node ''prometheus.relabel.y'' BuiltinComponentNode"

definition demo_logging :: node where
  "demo_logging = demo_node ''logging'' ConfigBlockNode"

definition demo_graph :: graph where
  "demo_graph = \<lparr>nodes = [demo_scrape, demo_relabel, demo_logging],
                  edges = [(demo_scrape, demo_logging), (demo_scrape, demo_relabel),
                           (demo_logging, demo_relabel)]\<rparr>"

definition demo_runtime :: runtime where
  "demo_runtime = Runtime [] demo_graph [demo_scrape, demo_relabel] []"

definition demo_info_opts :: InfoOptions where
  "demo_info_opts = \<lparr>GetHealth = True, GetArguments = False, GetExports = False, GetDebugInfo = False\<rparr>"

section \<open>Lemmas about the store, the cache and the component\<close>

lemma Copy_frame: "Copy h a = (h1, cp) \<Longrightarrow> h1 = h @ [h ! a] \<and> cp = length h"
  by (simp add: Copy_def)

lemma Process_frame:
  "Process D cfgs h a = (h', r, k) \<Longrightarrow> h' = h[a := fst (proc D cfgs (h ! a))]"
  by (auto simp: Process_def split: prod.splits option.splits)

lemma relabel_lookup_heap:
  assumes "relabel_lookup D c h a g = Some (c', h', out)"
  shows "h' = h \<or> (\<exists>x. h' = h @ [x])"
  using assms
  by (auto simp: relabel_lookup_def Copy_def Process_def split: option.splits prod.splits if_splits)

lemma relabel_heap:
  assumes "relabel D c v h a = Some (c', h', out)"
  shows "h' = h \<or> (\<exists>x. h' = h @ [x])"
  using assms relabel_lookup_heap
  by (fastforce simp: relabel_def split: option.splits prod.splits if_splits)

lemma getFromCache_cache:
  "getFromCache c i = Some (c', e, f) \<Longrightarrow> cache c' \<noteq> None"
  by (auto simp: getFromCache_def split: option.splits prod.splits)

lemma getFromCache_Some: "cache c \<noteq> None \<Longrightarrow> \<exists>r. getFromCache c i = Some r"
  by (auto simp: getFromCache_def split: option.splits prod.splits)

lemma addToCache_Some: "cache c \<noteq> None \<Longrightarrow> \<exists>c'. addToCache c i l k = Some c' \<and> cache c' \<noteq> None"
  by (auto simp: addToCache_def split: option.splits prod.splits)

lemma relabel_lookup_Some:
  assumes "cache c \<noteq> None"
  shows "\<exists>c' h' out. relabel_lookup D c h a g = Some (c', h', out) \<and> cache c' \<noteq> None"
proof -
  obtain c1 e f where g: "getFromCache c g = Some (c1, e, f)"
    using getFromCache_Some[OF assms, of g] by (metis prod_cases3)
  have c1: "cache c1 \<noteq> None" using getFromCache_cache[OF g] .
  show ?thesis
  proof (cases f)
    case True
    then show ?thesis using g c1 by (simp add: relabel_lookup_def)
  next
    case False
    obtain h1 cp where cp: "Copy h a = (h1, cp)" by (cases "Copy h a")
    obtain h2 r k where pr: "Process D (mrc c1) h1 cp = (h2, r, k)" by (cases "Process D (mrc c1) h1 cp")
    have "cache (c1\<lparr>cacheMisses := cacheMisses c1 + 1\<rparr>) \<noteq> None" using c1 by simp
    from addToCache_Some[OF this, of g r k] obtain c2 where
      "addToCache (c1\<lparr>cacheMisses := cacheMisses c1 + 1\<rparr>) g r k = Some c2" "cache c2 \<noteq> None" by blast
    then show ?thesis using g False cp pr by (simp add: relabel_lookup_def)
  qed
qed

lemma relabel_Some:
  assumes "cache c \<noteq> None"
  shows "\<exists>c' h' out. relabel D c v h a = Some (c', h', out) \<and> cache c' \<noteq> None"
proof -
  obtain s g where s: "GetOrAddGlobalRefID (ls c) (h ! a) = (s, g)" by (cases "GetOrAddGlobalRefID (ls c) (h ! a)")
  let ?c0 = "c\<lparr>metricsProcessed := metricsProcessed c + 1, ls := s\<rparr>"
  have "cache ?c0 \<noteq> None" using assms by simp
  from relabel_lookup_Some[OF this, of D h a g] obtain c1 h1 out where
    l: "relabel_lookup D ?c0 h a g = Some (c1, h1, out)" and c1: "cache c1 \<noteq> None" by blast
  show ?thesis using s l c1
    by (auto simp: relabel_def deleteFromCache_def Let_def split: option.splits)
qed

lemma ls_ok_unique:
  assumes "ls_ok s" "(l1, k) \<in> set (ids s)" "(l2, k) \<in> set (ids s)"
  shows "l1 = l2"
proof -
  have "inj_on snd (set (ids s))" using assms(1) by (simp add: ls_ok_def distinct_map)
  then have "(l1, k) = (l2, k)" using assms(2,3) by (intro inj_onD[of snd "set (ids s)"]) auto
  then show ?thesis by simp
qed

lemma GetOrAdd_ok:
  assumes "ls_ok s" "GetOrAddGlobalRefID s l = (s', g)"
  shows "ls_ok s'" "(l, g) \<in> set (ids s')" "set (ids s) \<subseteq> set (ids s')"
proof -
  show "ls_ok s'"
  proof (cases "map_of (ids s) l")
    case None
    then have s': "s' = s\<lparr>ids := (l, next_id s + 1) # ids s, next_id := next_id s + 1\<rparr>"
      using assms(2) by (auto simp: GetOrAddGlobalRefID_def Let_def)
    have "next_id s + 1 \<notin> snd ` set (ids s)" using assms(1) by (fastforce simp: ls_ok_def)
    then show ?thesis using assms(1) unfolding s' by (auto simp: ls_ok_def)
  next
    case (Some k)
    then show ?thesis using assms by (simp add: GetOrAddGlobalRefID_def)
  qed
  show "(l, g) \<in> set (ids s')"
    using assms(2) by (auto simp: GetOrAddGlobalRefID_def Let_def split: option.splits dest: map_of_SomeD)
  show "set (ids s) \<subseteq> set (ids s')"
    using assms(2) by (auto simp: GetOrAddGlobalRefID_def Let_def split: option.splits)
qed

lemma entry_ok_mono:
  "entry_ok D cfgs s k e \<Longrightarrow> set (ids s) \<subseteq> set (ids s') \<Longrightarrow> entry_ok D cfgs s' k e"
  unfolding entry_ok_def by (fastforce split: option.splits)

lemma lru_del_subset: "set (lru_del k xs) \<subseteq> set xs"
  by (auto simp: lru_del_def)

lemma lru_Get_hit:
  assumes "lru_Get l k = (l', Some v)"
  shows "(k, v) \<in> set (lru_items l)"
proof (cases "map_of (lru_items l) k")
  case None
  then show ?thesis using assms by (simp add: lru_Get_def)
next
  case (Some a)
  then have "a = v" using assms by (simp add: lru_Get_def)
  then show ?thesis using Some by (simp add: map_of_SomeD)
qed

lemma lru_Get_items:
  assumes "lru_Get l k = (l', r)"
  shows "set (lru_items l') \<subseteq> set (lru_items l)"
proof (cases "map_of (lru_items l) k")
  case None
  then show ?thesis using assms by (auto simp: lru_Get_def)
next
  case (Some a)
  then have "(k, a) \<in> set (lru_items l)" by (simp add: map_of_SomeD)
  moreover have "l' = l\<lparr>lru_items := (k, a) # lru_del k (lru_items l)\<rparr>"
    using assms Some by (auto simp: lru_Get_def)
  ultimately show ?thesis using lru_del_subset[of k "lru_items l"] by auto
qed

lemma lru_Add_items:
  "set (lru_items (lru_Add l k v)) \<subseteq> insert (k, v) (set (lru_items l))"
proof (cases "map_of (lru_items l) k")
  case None
  have "set (butlast ((k, v) # lru_items l)) \<subseteq> set ((k, v) # lru_items l)"
    by (meson in_set_butlastD subsetI)
  then show ?thesis using None by (auto simp: lru_Add_def Let_def)
next
  case (Some a)
  then show ?thesis using lru_del_subset[of k "lru_items l"] by (auto simp: lru_Add_def)
qed

lemma lru_Get_size: "lru_Get l k = (l', r) \<Longrightarrow> lru_size l' = lru_size l"
  by (auto simp: lru_Get_def split: option.splits)

lemma lru_Add_size: "lru_size (lru_Add l k v) = lru_size l"
  by (simp add: lru_Add_def Let_def split: option.splits)

lemma lru_Remove_size: "lru_size (lru_Remove l k) = lru_size l"
  by (simp add: lru_Remove_def)

lemma lru_Remove_items: "set (lru_items (lru_Remove l k)) \<subseteq> set (lru_items l)"
  using lru_del_subset[of k "lru_items l"] by (simp add: lru_Remove_def)

lemma getFromCache_shape:
  assumes "getFromCache c g = Some (c1, e, f)"
  shows "\<exists>l l'. cache c = Some l \<and> c1 = c\<lparr>cache := Some l'\<rparr> \<and>
           set (lru_items l') \<subseteq> set (lru_items l) \<and> lru_size l' = lru_size l \<and>
           (f \<longrightarrow> (g, e) \<in> set (lru_items l)) \<and>
           (\<not> f \<longrightarrow> e = None \<and> map_of (lru_items l) g = None \<and> l' = l)"
proof -
  obtain l where l: "cache c = Some l" using assms by (auto simp: getFromCache_def split: option.splits)
  obtain l' r where g: "lru_Get l g = (l', r)" by (cases "lru_Get l g")
  have sub: "set (lru_items l') \<subseteq> set (lru_items l)" using lru_Get_items[OF g] .
  show ?thesis
  proof (cases r)
    case None
    then have "map_of (lru_items l) g = None \<and> l' = l"
      using g by (auto simp: lru_Get_def split: option.splits)
    then show ?thesis using assms l g None by (auto simp: getFromCache_def)
  next
    case (Some v)
    then have "(g, v) \<in> set (lru_items l)" using lru_Get_hit g by fastforce
    then show ?thesis using assms l g Some sub lru_Get_size[OF g] by (auto simp: getFromCache_def)
  qed
qed

lemma addToCache_drop:
  assumes "cache c = Some l"
  shows "addToCache c g r False = Some (c\<lparr>cache := Some (lru_Add l g None)\<rparr>)"
  using assms by (simp add: addToCache_def)

lemma addToCache_keep:
  assumes "cache c = Some l" "GetOrAddGlobalRefID (ls c) r = (s, i)"
  shows "addToCache c g r True =
           Some (c\<lparr>ls := s, cache := Some (lru_Add l g (Some \<lparr>labels = r, id_ref = i\<rparr>))\<rparr>)"
  using assms by (simp add: addToCache_def)

lemma cache_inv_items:
  assumes "cache_inv D c" "cache c = Some l" "(k, e) \<in> set (lru_items l)"
  shows "entry_ok D (mrc c) (ls c) k e"
  using assms by (fastforce simp: cache_inv_def)

lemma entry_ok_hit:
  assumes "ls_ok s" "entry_ok D cfgs s g e" "(L, g) \<in> set (ids s)"
  shows "entry_labels e = rules_output D cfgs L"
proof -
  obtain l where l: "(l, g) \<in> set (ids s)"
    and c: "(case snd (proc D cfgs l) of None \<Rightarrow> e = None
            | Some r \<Rightarrow> \<exists>i. e = Some \<lparr>labels = r, id_ref = i\<rparr> \<and> (r, i) \<in> set (ids s))"
    using assms(2) unfolding entry_ok_def by blast
  have "l = L" using ls_ok_unique[OF assms(1) l assms(3)] .
  then show ?thesis using c by (auto simp: entry_labels_def rules_output_def split: option.splits)
qed

lemma relabel_lookup_hit:
  assumes g: "getFromCache c g = Some (c1, e, True)"
  shows "relabel_lookup D c h a g = Some (c1\<lparr>cacheHits := cacheHits c1 + 1\<rparr>, h, entry_labels e)"
  using g by (simp add: relabel_lookup_def entry_labels_def)

lemma Process_copy:
  assumes "a < length h"
  shows "Process D cfgs (fst (Copy h a)) (snd (Copy h a)) =
           (h @ [fst (proc D cfgs (h ! a))], rules_output D cfgs (h ! a),
            snd (proc D cfgs (h ! a)) \<noteq> None)"
  using assms
  by (auto simp: Process_def Copy_def rules_output_def nth_append split: prod.splits option.splits)

lemma relabel_lookup_miss:
  assumes g: "getFromCache c g = Some (c1, e, False)" and a: "a < length h"
  shows "relabel_lookup D c h a g =
           map_option (\<lambda>c2. (c2, h @ [fst (proc D (mrc c1) (h ! a))], rules_output D (mrc c1) (h ! a)))
             (addToCache (c1\<lparr>cacheMisses := cacheMisses c1 + 1\<rparr>) g
                (rules_output D (mrc c1) (h ! a)) (snd (proc D (mrc c1) (h ! a)) \<noteq> None))"
proof -
  obtain h1 cp where cp: "Copy h a = (h1, cp)" by (cases "Copy h a")
  have "Process D (mrc c1) h1 cp =
           (h @ [fst (proc D (mrc c1) (h ! a))], rules_output D (mrc c1) (h ! a),
            snd (proc D (mrc c1) (h ! a)) \<noteq> None)"
    using Process_copy[OF a, of D "mrc c1"] cp by simp
  then show ?thesis using g cp by (simp add: relabel_lookup_def split: option.splits)
qed

lemma cache_invI:
  assumes "ls_ok (ls c)" "cache c = Some l" "0 < lru_size l"
    "\<And>k e. (k, e) \<in> set (lru_items l) \<Longrightarrow> entry_ok D (mrc c) (ls c) k e"
  shows "cache_inv D c"
  using assms by (auto simp: cache_inv_def)

lemma relabel_lookup_inv:
  assumes inv: "cache_inv D c" and L: "(h ! a, g) \<in> set (ids (ls c))" and a: "a < length h"
  shows "\<exists>c' h'. relabel_lookup D c h a g = Some (c', h', rules_output D (mrc c) (h ! a)) \<and>
           cache_inv D c' \<and> mrc c' = mrc c \<and> exited c' = exited c \<and> opts c' = opts c \<and>
           (h ! a, g) \<in> set (ids (ls c'))"
proof -
  have ok: "ls_ok (ls c)" using inv by (simp add: cache_inv_def)
  obtain l0 where l0: "cache c = Some l0" and sz0: "0 < lru_size l0"
    using inv by (auto simp: cache_inv_def)
  then obtain r where "getFromCache c g = Some r" using getFromCache_Some[of c g] by auto
  then obtain c1 e f where g: "getFromCache c g = Some (c1, e, f)" by (cases r) auto
  from getFromCache_shape[OF g] l0 obtain l' where
    c1: "c1 = c\<lparr>cache := Some l'\<rparr>" and sub: "set (lru_items l') \<subseteq> set (lru_items l0)"
    and sz': "lru_size l' = lru_size l0"
    and hit: "f \<Longrightarrow> (g, e) \<in> set (lru_items l0)"
    by auto
  have items: "\<And>k e. (k, e) \<in> set (lru_items l') \<Longrightarrow> entry_ok D (mrc c) (ls c) k e"
    using cache_inv_items[OF inv l0] sub by blast
  show ?thesis
  proof (cases f)
    case True
    have "entry_ok D (mrc c) (ls c) g e" using cache_inv_items[OF inv l0 hit[OF True]] .
    then have out: "entry_labels e = rules_output D (mrc c) (h ! a)"
      using entry_ok_hit[OF ok _ L] by blast
    have "cache_inv D (c1\<lparr>cacheHits := cacheHits c1 + 1\<rparr>)"
      using ok items sz0 sz' unfolding c1 by (intro cache_invI[where l = l']) auto
    then show ?thesis
      using relabel_lookup_hit[of c g c1 e D h a] g True out L unfolding c1 by simp
  next
    case False
    let ?L = "h ! a"
    let ?out = "rules_output D (mrc c) ?L"
    let ?keep = "snd (proc D (mrc c) ?L) \<noteq> None"
    let ?c1' = "c1\<lparr>cacheMisses := cacheMisses c1 + 1\<rparr>"
    have mrc1: "mrc c1 = mrc c" unfolding c1 by simp
    have cc: "cache ?c1' = Some l'" unfolding c1 by simp
    have step: "relabel_lookup D c h a g =
           map_option (\<lambda>c2. (c2, h @ [fst (proc D (mrc c) ?L)], ?out)) (addToCache ?c1' g ?out ?keep)"
      using relabel_lookup_miss[OF _ a, of c g c1 e D] g False mrc1 by simp
    show ?thesis
    proof (cases ?keep)
      case False
      let ?c2 = "?c1'\<lparr>cache := Some (lru_Add l' g None)\<rparr>"
      have add: "addToCache ?c1' g ?out ?keep = Some ?c2"
        using addToCache_drop[OF cc] False by simp
      have new: "entry_ok D (mrc c) (ls c) g None"
        using L False unfolding entry_ok_def by (intro exI[of _ ?L]) auto
      have "\<And>k e. (k, e) \<in> set (lru_items (lru_Add l' g None)) \<Longrightarrow> entry_ok D (mrc c) (ls c) k e"
        using lru_Add_items[of l' g None] items new by blast
      then have "cache_inv D ?c2"
        using ok sz0 sz' unfolding c1
        by (intro cache_invI[where l = "lru_Add l' g None"]) (auto simp: lru_Add_size)
      then show ?thesis using step add L unfolding c1 by simp
    next
      case True
      then obtain r where r: "snd (proc D (mrc c) ?L) = Some r" by auto
      then have out: "?out = r" by (simp add: rules_output_def)
      obtain s i where gi: "GetOrAddGlobalRefID (ls c) r = (s, i)"
        by (cases "GetOrAddGlobalRefID (ls c) r")
      have s: "ls_ok s" "(r, i) \<in> set (ids s)" "set (ids (ls c)) \<subseteq> set (ids s)"
        using GetOrAdd_ok[OF ok gi] by auto
      let ?e = "Some \<lparr>labels = r, id_ref = i\<rparr>"
      let ?c2 = "?c1'\<lparr>ls := s, cache := Some (lru_Add l' g ?e)\<rparr>"
      have "ls ?c1' = ls c" unfolding c1 by simp
      then have add: "addToCache ?c1' g ?out ?keep = Some ?c2"
        using addToCache_keep[OF cc, of r s i g] gi True out by simp
      have new: "entry_ok D (mrc c) s g ?e"
        using L r s unfolding entry_ok_def by (intro exI[of _ ?L]) auto
      have "\<And>k e. (k, e) \<in> set (lru_items (lru_Add l' g ?e)) \<Longrightarrow> entry_ok D (mrc c) s k e"
        using lru_Add_items[of l' g ?e] items new entry_ok_mono[OF _ s(3)] by blast
      then have "cache_inv D ?c2"
        using s(1) sz0 sz' unfolding c1
        by (intro cache_invI[where l = "lru_Add l' g ?e"]) (auto simp: lru_Add_size)
      moreover have "(h ! a, g) \<in> set (ids (ls ?c2))" using L s(3) by auto
      ultimately show ?thesis using step add unfolding c1 by simp
    qed
  qed
qed

lemma deleteFromCache_inv:
  assumes "cache_inv D c"
  shows "\<exists>c'. deleteFromCache c g = Some c' \<and> cache_inv D c' \<and> mrc c' = mrc c \<and>
           exited c' = exited c \<and> opts c' = opts c \<and> ls c' = ls c"
proof -
  obtain l where l: "cache c = Some l" and sz: "0 < lru_size l"
    using assms by (auto simp: cache_inv_def)
  let ?c' = "c\<lparr>cacheDeletes := cacheDeletes c + 1, cache := Some (lru_Remove l g)\<rparr>"
  have d: "deleteFromCache c g = Some ?c'" using l by (simp add: deleteFromCache_def)
  have "\<And>k e. (k, e) \<in> set (lru_items (lru_Remove l g)) \<Longrightarrow> entry_ok D (mrc c) (ls c) k e"
    using cache_inv_items[OF assms l] lru_Remove_items[of l g] by blast
  then have "cache_inv D ?c'"
    using assms sz
    by (intro cache_invI[where l = "lru_Remove l g"]) (auto simp: cache_inv_def lru_Remove_size)
  then show ?thesis using d by simp
qed

lemma cache_inv_gauge: "cache_inv D c \<Longrightarrow> cache_inv D (c\<lparr>cacheSize := n\<rparr>)"
  by (simp add: cache_inv_def)

lemma relabel_inv:
  assumes inv: "cache_inv D c" and a: "a < length h"
  shows "\<exists>c' h'. relabel D c v h a = Some (c', h', rules_output D (mrc c) (h ! a)) \<and>
           cache_inv D c' \<and> mrc c' = mrc c \<and> exited c' = exited c \<and> opts c' = opts c"
proof -
  obtain s g where sg: "GetOrAddGlobalRefID (ls c) (h ! a) = (s, g)"
    by (cases "GetOrAddGlobalRefID (ls c) (h ! a)")
  have ok: "ls_ok (ls c)" using inv by (simp add: cache_inv_def)
  have s: "ls_ok s" "(h ! a, g) \<in> set (ids s)" "set (ids (ls c)) \<subseteq> set (ids s)"
    using GetOrAdd_ok[OF ok sg] by auto
  let ?c0 = "c\<lparr>metricsProcessed := metricsProcessed c + 1, ls := s\<rparr>"
  obtain l where l: "cache c = Some l" and sz: "0 < lru_size l"
    using inv by (auto simp: cache_inv_def)
  have "\<And>k e. (k, e) \<in> set (lru_items l) \<Longrightarrow> entry_ok D (mrc c) s k e"
    using cache_inv_items[OF inv l] entry_ok_mono[OF _ s(3)] by blast
  then have inv0: "cache_inv D ?c0" using s(1) l sz by (intro cache_invI[where l = l]) auto
  have "(h ! a, g) \<in> set (ids (ls ?c0))" using s(2) by simp
  from relabel_lookup_inv[OF inv0 this a] obtain c1 h1 where
    lk: "relabel_lookup D ?c0 h a g = Some (c1, h1, rules_output D (mrc c) (h ! a))"
    and c1: "cache_inv D c1" "mrc c1 = mrc c" "exited c1 = exited c" "opts c1 = opts c"
    by auto
  obtain c2 where c2: "(if IsStaleNaN v then deleteFromCache c1 g else Some c1) = Some c2"
    and c2i: "cache_inv D c2" "mrc c2 = mrc c" "exited c2 = exited c" "opts c2 = opts c"
    using deleteFromCache_inv[OF c1(1), of g] c1 by (cases "IsStaleNaN v") auto
  obtain l2 where l2: "cache c2 = Some l2" using c2i(1) by (auto simp: cache_inv_def)
  have "relabel D c v h a = Some (c2\<lparr>cacheSize := lru_Len l2\<rparr>, h1, rules_output D (mrc c) (h ! a))"
    using sg lk c2 l2 by (simp add: relabel_def)
  then show ?thesis using cache_inv_gauge[OF c2i(1)] c2i by auto
qed

lemma Update_inv:
  assumes "Validate args = None" "ls_ok (ls c)"
  shows "cache_inv D (Update D c args)"
proof -
  have "0 < CacheSize args" using assms(1) by (simp add: Validate_def split: if_splits)
  then show ?thesis using assms(2)
    by (simp add: Update_def clearCache_def lru_New_def cache_inv_def)
qed

lemma Update_fields:
  "ls (Update D c args) = ls c" "exited (Update D c args) = exited c"
  "opts (Update D c args) = opts c"
  by (auto simp: Update_def clearCache_def split: sum.splits)

lemma New_inv:
  assumes "New D opt args = Inr c0" "ls_ok (ls c0)"
  shows "cache_inv D c0" "\<not> exited c0" "opts c0 = opt"
proof -
  have pos: "0 < CacheSize args" using assms(1)
    by (auto simp: New_def lru_New_def split: if_splits)
  then have v: "Validate args = None" by (simp add: Validate_def)
  obtain c where c0: "c0 = Update D c args" and c: "\<not> exited c" "opts c = opt"
    using assms(1) by (auto simp: New_def split: sum.splits option.splits)
  have "ls_ok (ls c)" using assms(2) c0 by (simp add: Update_fields)
  then show "cache_inv D c0" using Update_inv[OF v] c0 by simp
  show "\<not> exited c0" "opts c0 = opt" using c c0 by (simp_all add: Update_fields)
qed

lemma hooks_inv:
  assumes inv: "cache_inv D c" and a: "a < length h"
  shows "\<exists>w r. AppendHook D reply (c, h, sent) a t v = Some (w, r) \<and> world_inv D w"
    "\<exists>w r. ExemplarHook D reply (c, h, sent) a e = Some (w, r) \<and> world_inv D w"
    "\<exists>w r. MetadataHook D reply (c, h, sent) a m = Some (w, r) \<and> world_inv D w"
    "\<exists>w r. HistogramHook D reply (c, h, sent) a t hh fh = Some (w, r) \<and> world_inv D w"
proof -
  have metric: "\<And>c n. cache_inv D c \<Longrightarrow> cache_inv D (c\<lparr>metricsOutgoing := n\<rparr>)"
    by (simp add: cache_inv_def)
  obtain c1 h1 where r: "relabel D c v h a = Some (c1, h1, rules_output D (mrc c) (h ! a))"
    and i: "cache_inv D c1" using relabel_inv[OF inv a, of v] by blast
  obtain c2 h2 where r0: "relabel D c 0 h a = Some (c2, h2, rules_output D (mrc c) (h ! a))"
    and i0: "cache_inv D c2" using relabel_inv[OF inv a, of 0] by blast
  show "\<exists>w r. AppendHook D reply (c, h, sent) a t v = Some (w, r) \<and> world_inv D w"
    using r i inv metric[OF i] by (cases "reply (Sample (rules_output D (mrc c) (h ! a)) t v)")
      (auto simp: AppendHook_def world_inv_def)
  show "\<exists>w r. ExemplarHook D reply (c, h, sent) a e = Some (w, r) \<and> world_inv D w"
    using r0 i0 inv by (cases "reply (Exemplar (rules_output D (mrc c) (h ! a)) e)")
      (auto simp: ExemplarHook_def world_inv_def)
  show "\<exists>w r. MetadataHook D reply (c, h, sent) a m = Some (w, r) \<and> world_inv D w"
    using r0 i0 inv by (cases "reply (Metadata (rules_output D (mrc c) (h ! a)) m)")
      (auto simp: MetadataHook_def world_inv_def)
  show "\<exists>w r. HistogramHook D reply (c, h, sent) a t hh fh = Some (w, r) \<and> world_inv D w"
    using r0 i0 inv by (cases "reply (Histogram (rules_output D (mrc c) (h ! a)) t hh fh)")
      (auto simp: HistogramHook_def world_inv_def)
qed

lemma step_inv:
  assumes "world_inv D w" "call_valid x"
  shows "\<exists>w'. step D reply w x = Some w' \<and> world_inv D w'"
proof -
  obtain c h sent where w: "w = (c, h, sent)" by (cases w)
  have inv: "cache_inv D c" using assms(1) w by (simp add: world_inv_def)
  have a: "\<And>l. length h < length (h @ [l])" by simp
  show ?thesis
  proof (cases x)
    case (CallAppend l t v)
    then show ?thesis using hooks_inv(1)[OF inv a[of l], where reply = reply and sent = sent and t = t and v = v] w
      by (auto simp: with_slice_def)
  next
    case (CallExemplar l e)
    then show ?thesis using hooks_inv(2)[OF inv a[of l], where reply = reply and sent = sent and e = e] w
      by (auto simp: with_slice_def)
  next
    case (CallMetadata l m)
    then show ?thesis using hooks_inv(3)[OF inv a[of l], where reply = reply and sent = sent and m = m] w
      by (auto simp: with_slice_def)
  next
    case (CallHistogram l t hh fh)
    then show ?thesis using hooks_inv(4)[OF inv a[of l], where reply = reply and sent = sent and t = t and hh = hh and fh = fh] w
      by (auto simp: with_slice_def)
  next
    case (CallUpdate args)
    then have "Validate args = None" using assms(2) by simp
    moreover have "ls_ok (ls c)" using inv by (simp add: cache_inv_def)
    ultimately show ?thesis using Update_inv w CallUpdate by (auto simp: world_inv_def)
  next
    case CallRunReturns
    then show ?thesis using inv w by (simp add: world_inv_def Run_def cache_inv_def)
  qed
qed

lemma run_calls_inv:
  assumes "world_inv D w" "list_all call_valid xs"
  shows "\<exists>w'. run_calls D reply w xs = Some w' \<and> world_inv D w'"
  using assms
proof (induction xs arbitrary: w)
  case Nil
  then show ?case by simp
next
  case (Cons x xs)
  then obtain w1 where w1: "step D reply w x = Some w1" "world_inv D w1"
    using step_inv[of D w x reply] by auto
  then show ?case using Cons.IH[OF w1(2)] Cons.prems(2) by simp
qed

lemma map_of_lru_del: "map_of (lru_del k xs) k = None"
  by (induction xs) (auto simp: lru_del_def)

lemma map_of_lru_Add:
  assumes "0 < lru_size l"
  shows "map_of (lru_items (lru_Add l k v)) k = Some v"
proof (cases "map_of (lru_items l) k")
  case None
  show ?thesis
  proof (cases "lru_items l")
    case Nil
    then show ?thesis using None assms by (simp add: lru_Add_def Let_def)
  next
    case (Cons x xs)
    then show ?thesis using None by (simp add: lru_Add_def Let_def)
  qed
next
  case (Some a)
  then show ?thesis by (simp add: lru_Add_def)
qed

lemma relabel_hit:
  assumes hit: "cached c (globalRefOf (ls c) (h ! a)) = Some e"
  shows "\<exists>c'. relabel D c v h a = Some (c', h, entry_labels e) \<and>
           cacheHits c' = cacheHits c + 1 \<and> cacheMisses c' = cacheMisses c \<and>
           cached c' (globalRefOf (ls c) (h ! a)) = (if IsStaleNaN v then None else Some e) \<and>
           cacheDeletes c' = (if IsStaleNaN v then cacheDeletes c + 1 else cacheDeletes c) \<and>
           ls c' = fst (GetOrAddGlobalRefID (ls c) (h ! a))"
proof -
  obtain s g where sg: "GetOrAddGlobalRefID (ls c) (h ! a) = (s, g)"
    by (cases "GetOrAddGlobalRefID (ls c) (h ! a)")
  then have g: "globalRefOf (ls c) (h ! a) = g" by (simp add: globalRefOf_def)
  obtain l where l: "cache c = Some l" and m: "map_of (lru_items l) g = Some e"
    using hit g by (auto simp: cached_def split: option.splits)
  let ?c0 = "c\<lparr>metricsProcessed := metricsProcessed c + 1, ls := s\<rparr>"
  let ?l' = "l\<lparr>lru_items := (g, e) # lru_del g (lru_items l)\<rparr>"
  let ?c1 = "?c0\<lparr>cache := Some ?l'\<rparr>"
  have "getFromCache ?c0 g = Some (?c1, e, True)"
    using l m by (simp add: getFromCache_def lru_Get_def)
  then have lk: "relabel_lookup D ?c0 h a g = Some (?c1\<lparr>cacheHits := cacheHits ?c1 + 1\<rparr>, h, entry_labels e)"
    by (rule relabel_lookup_hit)
  show ?thesis
  proof (cases "IsStaleNaN v")
    case True
    then show ?thesis using sg lk g
      by (simp add: relabel_def deleteFromCache_def Let_def cached_def lru_Remove_def map_of_lru_del)
  next
    case False
    then show ?thesis using sg lk g
      by (simp add: relabel_def cached_def)
  qed
qed

lemma relabel_miss:
  assumes l: "cache c = Some l"
    and miss: "cached c (globalRefOf (ls c) (h ! a)) = None" and a: "a < length h"
  shows "\<exists>c'. relabel D c v h a =
             Some (c', h @ [fst (proc D (mrc c) (h ! a))], rules_output D (mrc c) (h ! a)) \<and>
           cacheMisses c' = cacheMisses c + 1 \<and> cacheHits c' = cacheHits c \<and>
           (0 < lru_size l \<longrightarrow>
              cached c' (globalRefOf (ls c) (h ! a)) =
                (if IsStaleNaN v then None else Some (new_entry D c (h ! a)))) \<and>
           cacheDeletes c' = (if IsStaleNaN v then cacheDeletes c + 1 else cacheDeletes c)"
proof -
  obtain s g where sg: "GetOrAddGlobalRefID (ls c) (h ! a) = (s, g)"
    by (cases "GetOrAddGlobalRefID (ls c) (h ! a)")
  then have g: "globalRefOf (ls c) (h ! a) = g" by (simp add: globalRefOf_def)
  have m: "map_of (lru_items l) g = None" using miss g l by (simp add: cached_def)
  let ?L = "h ! a"
  let ?out = "rules_output D (mrc c) ?L"
  let ?c0 = "c\<lparr>metricsProcessed := metricsProcessed c + 1, ls := s\<rparr>"
  let ?c1 = "?c0\<lparr>cache := Some l\<rparr>"
  let ?c1' = "?c1\<lparr>cacheMisses := cacheMisses ?c1 + 1\<rparr>"
  have gf: "getFromCache ?c0 g = Some (?c1, None, False)"
    using l m by (simp add: getFromCache_def lru_Get_def)
  have step: "relabel_lookup D ?c0 h a g =
      map_option (\<lambda>c2. (c2, h @ [fst (proc D (mrc c) ?L)], ?out))
        (addToCache ?c1' g ?out (snd (proc D (mrc c) ?L) \<noteq> None))"
    using relabel_lookup_miss[OF gf a, of D] by simp
  have cc: "cache ?c1' = Some l" by simp
  let ?e = "new_entry D c ?L"
  have "\<exists>s2. addToCache ?c1' g ?out (snd (proc D (mrc c) ?L) \<noteq> None) =
        Some (?c1'\<lparr>ls := s2, cache := Some (lru_Add l g ?e)\<rparr>)"
  proof (cases "snd (proc D (mrc c) ?L)")
    case None
    have "addToCache ?c1' g ?out False = Some (?c1'\<lparr>ls := s, cache := Some (lru_Add l g None)\<rparr>)"
      using addToCache_drop[OF cc, of g ?out] by simp
    moreover have "?e = None" using None by (simp add: new_entry_def)
    ultimately show ?thesis using None by auto
  next
    case (Some r)
    obtain s2 i where gi: "GetOrAddGlobalRefID s r = (s2, i)" by (cases "GetOrAddGlobalRefID s r")
    have o: "?out = r" using Some by (simp add: rules_output_def)
    have "addToCache ?c1' g r True =
        Some (?c1'\<lparr>ls := s2, cache := Some (lru_Add l g (Some \<lparr>labels = r, id_ref = i\<rparr>))\<rparr>)"
      using addToCache_keep[OF cc, of r s2 i g] gi by simp
    moreover have "?e = Some \<lparr>labels = r, id_ref = i\<rparr>"
      using Some gi sg by (simp add: new_entry_def globalRefOf_def)
    ultimately show ?thesis using Some o by auto
  qed
  then obtain s2 where add: "addToCache ?c1' g ?out (snd (proc D (mrc c) ?L) \<noteq> None) =
        Some (?c1'\<lparr>ls := s2, cache := Some (lru_Add l g ?e)\<rparr>)" by blast
  have lk: "relabel_lookup D ?c0 h a g =
      Some (?c1'\<lparr>ls := s2, cache := Some (lru_Add l g ?e)\<rparr>, h @ [fst (proc D (mrc c) ?L)], ?out)"
    using step add by simp
  show ?thesis
  proof (cases "IsStaleNaN v")
    case True
    then show ?thesis using sg lk g
      by (simp add: relabel_def deleteFromCache_def Let_def cached_def lru_Remove_def map_of_lru_del)
  next
    case False
    then show ?thesis using sg lk g map_of_lru_Add[of l g ?e]
      by (simp add: relabel_def cached_def)
  qed
qed

section \<open>The instance runs\<close>

lemma New_demo: "New demo_deps demo_opts demo_args = Inr demo_component"
  by (simp add: New_def lru_New_def demo_args_def demo_opts_def demo_component_def
      Update_def clearCache_def demo_deps_def)

lemma Process_overwrites_its_argument:
  "Process demo_deps [] [demo_keep] 0 = ([rev demo_keep], demo_keep, True)"
  by (simp add: Process_def demo_deps_def demo_proc_def)

lemma relabel_heap_copy:
  fixes c c' :: "('a, 'b, 'c) Component"
  assumes "relabel D c v h a = Some (c', h', out)" "a < length h"
  shows "h' = h \<or> h' = h @ [fst (proc D (mrc c) (h ! a))]"
proof -
  have "h' = h \<or> h' = h @ [fst (proc D (mrc d) (h ! a))]"
    if r: "relabel_lookup D d h a g = Some (d', h', out)"
    for d d' :: "('a, 'b, 'c) Component" and g
  proof -
    obtain d1 e f where g: "getFromCache d g = Some (d1, e, f)"
      using r by (auto simp: relabel_lookup_def split: option.splits)
    from getFromCache_shape[OF g] have m: "mrc d1 = mrc d" by auto
    show ?thesis
    proof (cases f)
      case True
      then show ?thesis using r relabel_lookup_hit[of d g d1 e D h a] g by simp
    next
      case False
      then show ?thesis using r relabel_lookup_miss[of d g d1 e a h D] g assms(2) m by auto
    qed
  qed
  then show ?thesis using assms(1)
    by (fastforce simp: relabel_def split: option.splits prod.splits if_splits)
qed

lemmas relabel_defs =
  relabel_def relabel_lookup_def getFromCache_def addToCache_def deleteFromCache_def
  GetOrAddGlobalRefID_def lru_Get_def lru_Add_def lru_Remove_def lru_del_def lru_Len_def
  Copy_def Process_def IsStaleNaN_def StaleNaN_def Let_def

lemmas demo_defs =
  demo_deps_def demo_proc_def demo_keep_def demo_ignored_def demo_component_def demo_reply_def

lemma run_demo:
  "run_calls demo_deps demo_reply (demo_component, [], []) demo_calls =
     Some (demo_after, demo_heap, [Sample demo_keep 2 0])"
  by (simp add: demo_calls_def demo_after_def demo_heap_def AppendHook_def with_slice_def
      relabel_defs demo_defs)








lemma reachable_inv:
  assumes "New D opt args = Inr c0" "ls_ok (ls c0)" "list_all call_valid calls"
    "run_calls D reply (c0, h0, sent0) calls = Some (c, h, sent)"
  shows "cache_inv D c"
proof -
  have "world_inv D (c0, h0, sent0)" using New_inv(1)[OF assms(1,2)] by (simp add: world_inv_def)
  from run_calls_inv[OF this assms(3), of reply] assms(4) show ?thesis
    by (auto simp: world_inv_def)
qed

lemma hooks_exited:
  assumes "exited c"
  shows "AppendHook D reply (c, h, sent) a t v = Some ((c, h, sent), 0, Some (exitedError c))"
    "ExemplarHook D reply (c, h, sent) a e = Some ((c, h, sent), 0, Some (exitedError c))"
    "MetadataHook D reply (c, h, sent) a m = Some ((c, h, sent), 0, Some (exitedError c))"
    "HistogramHook D reply (c, h, sent) a t hh fh = Some ((c, h, sent), 0, Some (exitedError c))"
  using assms by (simp_all add: AppendHook_def ExemplarHook_def MetadataHook_def HistogramHook_def)

lemma step_exited:
  assumes "exited c"
  shows "\<exists>c' h'. step D reply (c, h, sent) x = Some (c', h', sent) \<and> exited c' \<and> opts c' = opts c"
proof (cases x)
  case (CallUpdate args)
  then show ?thesis using assms by (simp add: Update_fields)
next
  case CallRunReturns
  then show ?thesis by (simp add: Run_def)
qed (simp_all add: with_slice_def hooks_exited[OF assms] assms)

lemma run_calls_exited:
  assumes "exited c"
  shows "\<exists>c' h'. run_calls D reply (c, h, sent) xs = Some (c', h', sent) \<and> exited c' \<and> opts c' = opts c"
  using assms
proof (induction xs arbitrary: c h)
  case Nil
  then show ?case by simp
next
  case (Cons x xs)
  obtain c1 h1 where s: "step D reply (c, h, sent) x = Some (c1, h1, sent)" "exited c1" "opts c1 = opts c"
    using step_exited[OF Cons.prems, of D reply h sent x] by blast
  from Cons.IH[OF s(2), of h1] s show ?case by auto
qed

section \<open>The relabel component: properties\<close>

text \<open>
  C4. The cache capacity defaults to 100,000; \<open>Validate\<close> returns an error exactly when
  \<open>max_cache_size\<close> is not positive; and an \<open>Update\<close> whose arguments pass \<open>Validate\<close> leaves
  an empty cache of the newly configured capacity. (An \<open>Update\<close> with a capacity that is
  not positive builds no cache: see the example after the theorem.)
\<close>

theorem cache_capacity_config:
  "CacheSize (SetToDefault arg) = 100000 \<and>
   (Validate arg \<noteq> None \<longleftrightarrow> CacheSize arg \<le> 0) \<and>
   (Validate args = None \<longrightarrow>
      cache (Update D c args) = Some \<lparr>lru_size = nat (CacheSize args), lru_items = []\<rparr>)"
  by (simp add: SetToDefault_def Validate_def Update_def clearCache_def lru_New_def)

theorem cache_capacity_config_witness:
  "Validate demo_args = None \<and>
   cache (Update demo_deps demo_component demo_args) = Some \<lparr>lru_size = 2, lru_items = []\<rparr>"
proof -
  have v: "Validate demo_args = None" by (simp add: Validate_def demo_args_def)
  have "cache (Update demo_deps demo_component demo_args) =
          Some \<lparr>lru_size = nat (CacheSize demo_args), lru_items = []\<rparr>"
    using cache_capacity_config[where args = demo_args and D = demo_deps and c = demo_component] v
    by blast
  then show ?thesis using v by (simp add: demo_args_def)
qed

text \<open>
  An \<open>Update\<close> with \<open>max_cache_size = 0\<close>: \<open>lru.New\<close> fails, \<open>clearCache\<close> drops the error,
  the component is left without a cache, and the next \<open>relabel\<close> panics.
\<close>

theorem Update_zero_capacity_counterexample:
  "cache (Update demo_deps demo_component (demo_args\<lparr>CacheSize := 0\<rparr>)) = None \<and>
   relabel demo_deps (Update demo_deps demo_component (demo_args\<lparr>CacheSize := 0\<rparr>))
     0 [demo_keep] 0 = None"
  by (simp add: Update_def clearCache_def lru_New_def demo_args_def relabel_def
      relabel_lookup_def getFromCache_def GetOrAddGlobalRefID_def demo_component_def Let_def)

text \<open>
  C2. After \<open>relabel\<close> returns, the caller's slice holds what it held before the call, and
  so does every other cell of the store that existed before the call: the rules are
  applied to a copy, the one new cell of the store.
\<close>

theorem relabel_leaves_input_unchanged:
  assumes "cache c \<noteq> None" and "a < length h"
  shows "\<exists>c' h' out. relabel D c v h a = Some (c', h', out) \<and>
           h' ! a = h ! a \<and> take (length h) h' = h \<and>
           (h' = h \<or> h' = h @ [fst (proc D (mrc c) (h ! a))])"
proof -
  obtain c' h' out where r: "relabel D c v h a = Some (c', h', out)"
    using relabel_Some[OF assms(1), of D v h a] by blast
  have d: "h' = h \<or> h' = h @ [fst (proc D (mrc c) (h ! a))]"
    using relabel_heap_copy[OF r assms(2)] .
  then have "h' ! a = h ! a" "take (length h) h' = h"
    using assms(2) by (auto simp: nth_append)
  then show ?thesis using r d by blast
qed

theorem relabel_leaves_input_unchanged_witness:
  "\<exists>c' out. relabel demo_deps demo_component 0 [demo_keep] 0 =
      Some (c', [demo_keep, rev demo_keep], out)"
proof -
  have 1: "cache demo_component \<noteq> None" by (simp add: demo_component_def)
  have 2: "(0::nat) < length [demo_keep]" by simp
  have p: "fst (proc demo_deps (mrc demo_component) demo_keep) = rev demo_keep"
    by (simp add: demo_deps_def demo_proc_def)
  have m: "cacheMisses (fst (the (relabel demo_deps demo_component 0 [demo_keep] 0))) = 1"
    by (simp add: relabel_def relabel_lookup_def getFromCache_def GetOrAddGlobalRefID_def
        demo_component_def Let_def lru_Get_def Copy_def Process_def demo_deps_def demo_proc_def
        demo_keep_def addToCache_def IsStaleNaN_def StaleNaN_def lru_Add_def)
  from relabel_leaves_input_unchanged[OF 1 2, of demo_deps 0] obtain c' h' out where
    r: "relabel demo_deps demo_component 0 [demo_keep] 0 = Some (c', h', out)"
    and d: "h' = [demo_keep] \<or> h' = [demo_keep] @ [fst (proc demo_deps (mrc demo_component) ([demo_keep] ! 0))]"
    by blast
  have "h' \<noteq> [demo_keep]"
  proof
    assume "h' = [demo_keep]"
    then have "relabel demo_deps demo_component 0 [demo_keep] 0 = Some (c', [demo_keep], out)"
      using r by simp
    moreover have "\<exists>x. relabel demo_deps demo_component 0 [demo_keep] 0 =
                     Some (x, [demo_keep, rev demo_keep], demo_keep)"
      by (simp add: relabel_def relabel_lookup_def getFromCache_def GetOrAddGlobalRefID_def
        demo_component_def Let_def lru_Get_def Copy_def Process_def demo_deps_def demo_proc_def
        demo_keep_def addToCache_def IsStaleNaN_def StaleNaN_def lru_Add_def)
    ultimately show False by auto
  qed
  then show ?thesis using r d p by auto
qed

text \<open>
  C1. Take a component built by \<open>New\<close> on a well-formed label store, after any sequence
  of appends and of updates with validated arguments, and a call \<open>relabel(v, L)\<close>. The call
  returns the result of applying the current rules to a fresh copy of \<open>L\<close>. On a miss the
  rules are applied to a copy (the one new cell of the store), the miss counter grows by
  one, and the cache then holds, under the identity of \<open>L\<close>, a nil entry when the rules
  drop the series and otherwise the output labels with their own identity (unless the
  value is a stale marker, which removes the entry again). On a hit nothing is copied, the
  hit counter grows by one, and the labels returned are those of the cached entry, none
  for a nil entry.
\<close>

theorem relabel_cache_correct:
  assumes new: "New D opt args = Inr c0" and store: "ls_ok (ls c0)"
    and valid: "list_all call_valid calls"
    and run: "run_calls D reply (c0, h0, sent0) calls = Some (c, h, sent)"
    and a: "a < length h"
  shows "\<exists>c' h'. relabel D c v h a = Some (c', h', rules_output D (mrc c) (h ! a)) \<and>
           (case cached c (globalRefOf (ls c) (h ! a)) of
              None \<Rightarrow>
                h' = h @ [fst (proc D (mrc c) (h ! a))] \<and>
                cacheMisses c' = cacheMisses c + 1 \<and> cacheHits c' = cacheHits c \<and>
                (\<not> IsStaleNaN v \<longrightarrow>
                   cached c' (globalRefOf (ls c) (h ! a)) = Some (new_entry D c (h ! a)))
            | Some e \<Rightarrow>
                h' = h \<and> cacheHits c' = cacheHits c + 1 \<and> cacheMisses c' = cacheMisses c \<and>
                rules_output D (mrc c) (h ! a) = entry_labels e)"
proof -
  have "world_inv D (c0, h0, sent0)" using New_inv(1)[OF new store] by (simp add: world_inv_def)
  from run_calls_inv[OF this valid, of reply] run have inv: "cache_inv D c"
    by (auto simp: world_inv_def)
  obtain c' h' where r: "relabel D c v h a = Some (c', h', rules_output D (mrc c) (h ! a))"
    using relabel_inv[OF inv a, of v] by blast
  obtain l where l: "cache c = Some l" "0 < lru_size l" using inv by (auto simp: cache_inv_def)
  let ?g = "globalRefOf (ls c) (h ! a)"
  show ?thesis
  proof (cases "cached c ?g")
    case None
    from relabel_miss[OF l(1) None a, of D v] r l(2) show ?thesis using None by auto
  next
    case (Some e)
    from relabel_hit[OF Some, of D v] r show ?thesis using Some by auto
  qed
qed

theorem relabel_cache_correct_witness:
  "\<exists>c'. relabel demo_deps demo_after 0 demo_heap 4 = Some (c', demo_heap, []) \<and>
        cacheHits c' = 2 \<and> cacheMisses c' = 2"
proof -
  have s: "ls_ok (ls demo_component)" by (simp add: ls_ok_def demo_component_def)
  have v: "list_all call_valid demo_calls" by (simp add: demo_calls_def)
  have a: "4 < length demo_heap" by (simp add: demo_heap_def)
  have o: "rules_output demo_deps (mrc demo_after) (demo_heap ! 4) = []"
    by (simp add: rules_output_def demo_after_def demo_heap_def demo_defs)
  have c: "cached demo_after (globalRefOf (ls demo_after) (demo_heap ! 4)) = Some None"
    by (simp add: cached_def globalRefOf_def GetOrAddGlobalRefID_def demo_after_def demo_heap_def
        demo_defs)
  have h: "cacheHits demo_after = 1" "cacheMisses demo_after = 2" by (simp_all add: demo_after_def)
  show ?thesis
    using relabel_cache_correct[OF New_demo s v run_demo a, of 0] o c h by auto
qed




text \<open>
  C5. While the component has not exited: a hook whose relabelled label set is empty
  forwards nothing to the next appender and returns \<open>(0, nil)\<close>, for samples, exemplars,
  metadata and histograms alike; in particular so when the rules drop the series, in any
  state reached from \<open>New\<close> by appends and validated updates.
\<close>

theorem empty_labels_not_forwarded:
  assumes running: "\<not> exited c"
  shows "(relabel D c v h a = Some (c', h', []) \<longrightarrow>
            AppendHook D reply (c, h, sent) a t v = Some ((c', h', sent), 0, None)) \<and>
         (relabel D c 0 h a = Some (c', h', []) \<longrightarrow>
            ExemplarHook D reply (c, h, sent) a e = Some ((c', h', sent), 0, None) \<and>
            MetadataHook D reply (c, h, sent) a m = Some ((c', h', sent), 0, None) \<and>
            HistogramHook D reply (c, h, sent) a t hh fh = Some ((c', h', sent), 0, None)) \<and>
         (New D opt args = Inr c0 \<and> ls_ok (ls c0) \<and> list_all call_valid calls \<and>
          run_calls D reply (c0, h0, sent0) calls = Some (c, h, sent) \<and> a < length h \<and>
          snd (proc D (mrc c) (h ! a)) = None \<longrightarrow>
            (\<exists>c1 h1. AppendHook D reply (c, h, sent) a t v = Some ((c1, h1, sent), 0, None)) \<and>
            (\<exists>c1 h1. ExemplarHook D reply (c, h, sent) a e = Some ((c1, h1, sent), 0, None) \<and>
                     MetadataHook D reply (c, h, sent) a m = Some ((c1, h1, sent), 0, None) \<and>
                     HistogramHook D reply (c, h, sent) a t hh fh = Some ((c1, h1, sent), 0, None)))"
proof (intro conjI impI)
  assume "relabel D c v h a = Some (c', h', [])"
  then show "AppendHook D reply (c, h, sent) a t v = Some ((c', h', sent), 0, None)"
    using running by (simp add: AppendHook_def)
next
  assume r: "relabel D c 0 h a = Some (c', h', [])"
  show "ExemplarHook D reply (c, h, sent) a e = Some ((c', h', sent), 0, None)"
    using r running by (simp add: ExemplarHook_def)
  show "MetadataHook D reply (c, h, sent) a m = Some ((c', h', sent), 0, None)"
    using r running by (simp add: MetadataHook_def)
  show "HistogramHook D reply (c, h, sent) a t hh fh = Some ((c', h', sent), 0, None)"
    using r running by (simp add: HistogramHook_def)
next
  assume p: "New D opt args = Inr c0 \<and> ls_ok (ls c0) \<and> list_all call_valid calls \<and>
          run_calls D reply (c0, h0, sent0) calls = Some (c, h, sent) \<and> a < length h \<and>
          snd (proc D (mrc c) (h ! a)) = None"
  then have inv: "cache_inv D c" and a: "a < length h"
    and out: "rules_output D (mrc c) (h ! a) = []"
    using reachable_inv[of D opt args c0 calls reply h0 sent0 c h sent]
    by (auto simp: rules_output_def)
  from relabel_inv[OF inv a, of v] out
  show "\<exists>c1 h1. AppendHook D reply (c, h, sent) a t v = Some ((c1, h1, sent), 0, None)"
    using running by (auto simp: AppendHook_def)
  from relabel_inv[OF inv a, of 0] out
  show "\<exists>c1 h1. ExemplarHook D reply (c, h, sent) a e = Some ((c1, h1, sent), 0, None) \<and>
                MetadataHook D reply (c, h, sent) a m = Some ((c1, h1, sent), 0, None) \<and>
                HistogramHook D reply (c, h, sent) a t hh fh = Some ((c1, h1, sent), 0, None)"
    using running by (auto simp: ExemplarHook_def MetadataHook_def HistogramHook_def)
qed

theorem empty_labels_not_forwarded_witness:
  "AppendHook demo_deps demo_reply (demo_after, demo_heap, [Sample demo_keep 2 0]) 4 9 0 =
     Some ((demo_after_hit, demo_heap, [Sample demo_keep 2 0]), 0, None) \<and>
   ExemplarHook demo_deps demo_reply (demo_after, demo_heap, [Sample demo_keep 2 0]) 4 ''e'' =
     Some ((demo_after_hit, demo_heap, [Sample demo_keep 2 0]), 0, None) \<and>
   MetadataHook demo_deps demo_reply (demo_after, demo_heap, [Sample demo_keep 2 0]) 4 ''m'' =
     Some ((demo_after_hit, demo_heap, [Sample demo_keep 2 0]), 0, None) \<and>
   HistogramHook demo_deps demo_reply (demo_after, demo_heap, [Sample demo_keep 2 0]) 4 9 ''h'' ''fh'' =
     Some ((demo_after_hit, demo_heap, [Sample demo_keep 2 0]), 0, None) \<and>
   (\<exists>c1 h1. AppendHook demo_deps demo_reply (demo_after, demo_heap, [Sample demo_keep 2 0]) 4 9 0 =
      Some ((c1, h1, [Sample demo_keep 2 0]), 0, None))"
proof -
  have e: "\<not> exited demo_after" by (simp add: demo_after_def)
  have r: "relabel demo_deps demo_after 0 demo_heap 4 = Some (demo_after_hit, demo_heap, [])"
    by (simp add: demo_after_hit_def demo_after_def demo_heap_def relabel_defs demo_defs)
  have s: "ls_ok (ls demo_component)" by (simp add: ls_ok_def demo_component_def)
  have v: "list_all call_valid demo_calls" by (simp add: demo_calls_def)
  have a: "4 < length demo_heap" by (simp add: demo_heap_def)
  have p: "snd (proc demo_deps (mrc demo_after) (demo_heap ! 4)) = None"
    by (simp add: demo_after_def demo_heap_def demo_defs)
  note t = empty_labels_not_forwarded[OF e, where D = demo_deps and v = 0 and h = demo_heap
      and a = 4 and c' = demo_after_hit and h' = demo_heap and reply = demo_reply
      and sent = "[Sample demo_keep 2 0]" and t = 9 and e = "''e''" and m = "''m''"
      and hh = "''h''" and fh = "''fh''" and opt = demo_opts and args = demo_args
      and ?c0.0 = demo_component and calls = demo_calls and ?h0.0 = "[]" and ?sent0.0 = "[]"]
  show ?thesis using t r New_demo s v run_demo a p by blast
qed

text \<open>
  C10. Once \<open>Run\<close> has returned, whatever calls follow (appends, updates), every append
  of a sample, an exemplar, a metadata update or a histogram returns the error that the
  component has exited, with reference 0, and neither it nor the calls before it forward
  anything to the next appender.
\<close>

theorem appends_after_exit_fail:
  "\<exists>c' h'. run_calls D reply (Run c, h, sent) calls = Some (c', h', sent) \<and>
      AppendHook D reply (c', h', sent) a t v =
        Some ((c', h', sent), 0, Some (opts_ID (opts c) @ '' has exited'')) \<and>
      ExemplarHook D reply (c', h', sent) a e =
        Some ((c', h', sent), 0, Some (opts_ID (opts c) @ '' has exited'')) \<and>
      MetadataHook D reply (c', h', sent) a m =
        Some ((c', h', sent), 0, Some (opts_ID (opts c) @ '' has exited'')) \<and>
      HistogramHook D reply (c', h', sent) a t hh fh =
        Some ((c', h', sent), 0, Some (opts_ID (opts c) @ '' has exited''))"
proof -
  have "exited (Run c)" "opts (Run c) = opts c" by (simp_all add: Run_def)
  then obtain c' h' where r: "run_calls D reply (Run c, h, sent) calls = Some (c', h', sent)"
    and e: "exited c'" and o: "opts c' = opts c"
    using run_calls_exited[of "Run c" D reply h sent calls] by auto
  have "exitedError c' = opts_ID (opts c) @ '' has exited''" using o by (simp add: exitedError_def)
  then show ?thesis using r hooks_exited[OF e, of D reply h' sent] by auto
qed

section \<open>The regex stage: properties\<close>

lemmas demo_regex_defs = demo_http_def demo_Compile_def demo_getString_def demo_config_def
  demo_stage_def demo_entry_def

lemma Process_matchInput:
  "sourceString gs r e = Some s \<Longrightarrow> regexStage_Process gs r e = (matchInput r s e, [])"
  by (auto simp: sourceString_def regexStage_Process_def split: option.splits)

lemma writeGroups_other:
  "n \<notin> fst ` set gs \<Longrightarrow>
     Labels (writeGroups lfg gs e) n = Labels e n \<and>
     Extracted (writeGroups lfg gs e) n = Extracted e n"
  by (induction gs arbitrary: e) auto

lemma writeGroups_last:
  assumes "k < length gs" "fst (gs ! k) \<noteq> []"
    "\<forall>j. k < j \<and> j < length gs \<longrightarrow> fst (gs ! j) \<noteq> fst (gs ! k)"
  shows "Extracted (writeGroups lfg gs e) (fst (gs ! k)) = Some (VString (snd (gs ! k))) \<and>
         (lfg \<longrightarrow> Labels (writeGroups lfg gs e) (fst (gs ! k)) = Some (snd (gs ! k)))"
  using assms
proof (induction gs arbitrary: k e)
  case Nil
  then show ?case by simp
next
  case (Cons g gs)
  obtain n v where g: "g = (n, v)" by (cases g)
  show ?case
  proof (cases k)
    case 0
    have "n \<notin> fst ` set gs"
    proof
      assume "n \<in> fst ` set gs"
      then obtain j where "j < length gs" "fst (gs ! j) = n"
        by (metis in_set_conv_nth imageE)
      then show False using Cons.prems(3)[rule_format, of "Suc j"] 0 g by auto
    qed
    from writeGroups_other[OF this] show ?thesis using 0 g Cons.prems(2) by simp
  next
    case (Suc k')
    have "\<forall>j. k' < j \<and> j < length gs \<longrightarrow> fst (gs ! j) \<noteq> fst (gs ! k')"
      using Cons.prems(3) Suc by (metis Suc_less_eq length_Cons nth_Cons_Suc)
    from Cons.IH[OF _ _ this] show ?thesis using Suc Cons.prems(1,2) g by simp
  qed
qed

text \<open>
  C6. Validation of a regex stage fails with \<open>ErrExpressionRequired\<close> when the expression
  is absent, with \<open>ErrCouldNotCompileRegex\<close> around the compiler's diagnostic when the
  expression does not compile (and the source is not the empty string), with
  \<open>ErrEmptyRegexStageSource\<close> when the source is the empty string (and the expression
  compiles); it succeeds, with the compiled expression, when the expression compiles and
  the source is unset or not empty. A config with both faults fails with one of the two
  errors.
\<close>

theorem regex_config_validation:
  "(Expression c = [] \<longrightarrow> validateRegexConfig Compile c = Inl ErrExpressionRequired) \<and>
   (Expression c \<noteq> [] \<and> Source c \<noteq> Some [] \<and> Compile (Expression c) = Inl diag \<longrightarrow>
      validateRegexConfig Compile c = Inl (ErrCouldNotCompileRegex diag)) \<and>
   (Expression c \<noteq> [] \<and> Compile (Expression c) = Inr expr \<and> Source c = Some [] \<longrightarrow>
      validateRegexConfig Compile c = Inl ErrEmptyRegexStageSource) \<and>
   (Expression c \<noteq> [] \<and> Compile (Expression c) = Inr expr \<and> Source c \<noteq> Some [] \<longrightarrow>
      validateRegexConfig Compile c = Inr expr) \<and>
   (Expression c \<noteq> [] \<and> Compile (Expression c) = Inl diag \<and> Source c = Some [] \<longrightarrow>
      validateRegexConfig Compile c = Inl ErrEmptyRegexStageSource \<or>
      validateRegexConfig Compile c = Inl (ErrCouldNotCompileRegex diag))"
  by (simp add: validateRegexConfig_def)

theorem regex_config_validation_witness:
  "validateRegexConfig demo_Compile (demo_config\<lparr>Expression := []\<rparr>) = Inl ErrExpressionRequired \<and>
   validateRegexConfig demo_Compile (demo_config\<lparr>Expression := ''(?P<ts[0-9]+).*''\<rparr>) =
     Inl (ErrCouldNotCompileRegex
            ''error parsing regexp: invalid named capture: `(?P<ts[0-9]+).*`'') \<and>
   validateRegexConfig demo_Compile (demo_config\<lparr>Source := Some []\<rparr>) =
     Inl ErrEmptyRegexStageSource \<and>
   validateRegexConfig demo_Compile demo_config = Inr demo_http \<and>
   validateRegexConfig demo_Compile (demo_config\<lparr>Source := None\<rparr>) = Inr demo_http"
proof -
  let ?bad = "''(?P<ts[0-9]+).*''"
  let ?diag = "''error parsing regexp: invalid named capture: `(?P<ts[0-9]+).*`''"
  have c: "demo_Compile (Expression demo_config) = Inr demo_http"
    "demo_Compile ?bad = Inl ?diag"
    by (simp_all add: demo_Compile_def demo_config_def)
  have f: "Expression demo_config \<noteq> []" "Source demo_config \<noteq> Some []"
    by (simp_all add: demo_config_def)
  have 1: "validateRegexConfig demo_Compile (demo_config\<lparr>Expression := []\<rparr>) = Inl ErrExpressionRequired"
    using regex_config_validation[of "demo_config\<lparr>Expression := []\<rparr>" demo_Compile] by simp
  have 2: "validateRegexConfig demo_Compile (demo_config\<lparr>Expression := ?bad\<rparr>) =
             Inl (ErrCouldNotCompileRegex ?diag)"
    using regex_config_validation[of "demo_config\<lparr>Expression := ?bad\<rparr>" demo_Compile ?diag] c f
    by simp
  have 3: "validateRegexConfig demo_Compile (demo_config\<lparr>Source := Some []\<rparr>) =
             Inl ErrEmptyRegexStageSource"
    using regex_config_validation[of "demo_config\<lparr>Source := Some []\<rparr>" demo_Compile _ demo_http] c f
    by simp
  have 4: "validateRegexConfig demo_Compile demo_config = Inr demo_http"
    using regex_config_validation[of demo_config demo_Compile _ demo_http] c f by simp
  have 5: "validateRegexConfig demo_Compile (demo_config\<lparr>Source := None\<rparr>) = Inr demo_http"
    using regex_config_validation[of "demo_config\<lparr>Source := None\<rparr>" demo_Compile _ demo_http] c f
    by simp
  show ?thesis using 1 2 3 4 5 by simp
qed

text \<open>
  C7. A regex stage returns the entry as it received it (extracted map and labels
  included) when the expression does not match the source string, when the source key is
  missing from the extracted map, and when the source value cannot be coerced to a string;
  in the last case it logs \<open>failed to convert source value to string\<close>.
\<close>

theorem regex_miss_passes_through:
  "(sourceString getString r e = Some s \<and> FindStringSubmatch (expression r) s = None \<longrightarrow>
      regexStage_Process getString r e = (e, [])) \<and>
   (Source (config r) = Some src \<and> Extracted e src = None \<longrightarrow>
      fst (regexStage_Process getString r e) = e) \<and>
   (Source (config r) = Some src \<and> Extracted e src = Some v \<and> getString v = None \<longrightarrow>
      regexStage_Process getString r e = (e, [FailedToConvertSourceValueToString src]))"
proof (intro conjI impI)
  assume "sourceString getString r e = Some s \<and> FindStringSubmatch (expression r) s = None"
  then show "regexStage_Process getString r e = (e, [])"
    using Process_matchInput[of getString r e s] by (simp add: matchInput_def)
next
  assume "Source (config r) = Some src \<and> Extracted e src = None"
  then show "fst (regexStage_Process getString r e) = e"
    by (simp add: regexStage_Process_def)
next
  assume "Source (config r) = Some src \<and> Extracted e src = Some v \<and> getString v = None"
  then show "regexStage_Process getString r e = (e, [FailedToConvertSourceValueToString src])"
    by (simp add: regexStage_Process_def)
qed

theorem regex_miss_passes_through_witness:
  "regexStage_Process demo_getString demo_stage (demo_entry (Some (VString ''unknown''))) =
     (demo_entry (Some (VString ''unknown'')), []) \<and>
   fst (regexStage_Process demo_getString demo_stage (demo_entry None)) = demo_entry None \<and>
   regexStage_Process demo_getString demo_stage (demo_entry (Some VNil)) =
     (demo_entry (Some VNil), [FailedToConvertSourceValueToString ''protocol''])"
proof -
  have s: "Source (config demo_stage) = Some ''protocol''"
    by (simp add: demo_stage_def demo_config_def)
  have x: "\<And>v. Extracted (demo_entry v) ''protocol'' = v" by (simp add: demo_entry_def)
  have 1: "sourceString demo_getString demo_stage (demo_entry (Some (VString ''unknown''))) =
             Some ''unknown'' \<and>
           FindStringSubmatch (expression demo_stage) ''unknown'' = None"
    by (simp add: sourceString_def demo_regex_defs)
  have 3: "demo_getString VNil = None" by (simp add: demo_getString_def)
  show ?thesis
    using regex_miss_passes_through[of demo_getString demo_stage
        "demo_entry (Some (VString ''unknown''))" "''unknown''" "''protocol''"]
      regex_miss_passes_through[of demo_getString demo_stage "demo_entry None" _ "''protocol''"]
      regex_miss_passes_through[of demo_getString demo_stage "demo_entry (Some VNil)" _
        "''protocol''" VNil]
      1 3 s x
    by simp
qed

text \<open>
  C8. When the expression matches, every named group (the last one of its name, group 0
  apart) is in the extracted map with the matched string, and, when \<open>labels_from_groups\<close>
  is set, in the labels with the same string, whatever label of that name was there.
\<close>

theorem labels_from_groups_overwrite:
  assumes src: "sourceString getString r e = Some s"
    and match: "FindStringSubmatch (expression r) s = Some m"
    and len: "length m = length (SubexpNames (expression r))"
    and i: "0 < i" "i < length (SubexpNames (expression r))"
    and named: "SubexpNames (expression r) ! i \<noteq> []"
    and last: "\<forall>j. i < j \<and> j < length (SubexpNames (expression r)) \<longrightarrow>
                 SubexpNames (expression r) ! j \<noteq> SubexpNames (expression r) ! i"
  shows "Extracted (fst (regexStage_Process getString r e)) (SubexpNames (expression r) ! i) =
           Some (VString (m ! i)) \<and>
         (LabelsFromGroups (config r) \<longrightarrow>
            Labels (fst (regexStage_Process getString r e)) (SubexpNames (expression r) ! i) =
              Some (m ! i))"
proof -
  let ?ns = "SubexpNames (expression r)"
  let ?gs = "tl (zip ?ns m)"
  have l: "length ?gs = length ?ns - 1" using len by simp
  have nth: "\<And>j. j < length ?gs \<Longrightarrow> ?gs ! j = (?ns ! Suc j, m ! Suc j)"
    using len by (simp add: nth_tl)
  obtain k where k: "i = Suc k" using i(1) by (cases i) auto
  have kl: "k < length ?gs" using l i(2) k by simp
  have g: "?gs ! k = (?ns ! i, m ! i)" using nth[OF kl] k by simp
  have "\<forall>j. k < j \<and> j < length ?gs \<longrightarrow> fst (?gs ! j) \<noteq> fst (?gs ! k)"
  proof (intro allI impI)
    fix j assume j: "k < j \<and> j < length ?gs"
    then have "?ns ! Suc j \<noteq> ?ns ! i" using last l k by auto
    then show "fst (?gs ! j) \<noteq> fst (?gs ! k)" using nth j g by simp
  qed
  from writeGroups_last[OF kl _ this, of "LabelsFromGroups (config r)" e] named g
  show ?thesis using Process_matchInput[OF src] match by (simp add: matchInput_def)
qed

theorem labels_from_groups_overwrite_witness:
  "Labels (demo_entry (Some (VString ''HTTP/1.1''))) ''protocol_version'' = Some ''old'' \<and>
   Extracted (fst (regexStage_Process demo_getString demo_stage
                     (demo_entry (Some (VString ''HTTP/1.1''))))) ''protocol_version'' =
     Some (VString ''1.1'') \<and>
   Labels (fst (regexStage_Process demo_getString demo_stage
                  (demo_entry (Some (VString ''HTTP/1.1''))))) ''protocol_version'' =
     Some ''1.1''"
proof -
  let ?e = "demo_entry (Some (VString ''HTTP/1.1''))"
  have 1: "sourceString demo_getString demo_stage ?e = Some ''HTTP/1.1''"
    by (simp add: sourceString_def demo_regex_defs)
  have 2: "FindStringSubmatch (expression demo_stage) ''HTTP/1.1'' = Some [''HTTP/1.1'', ''1.1'']"
    by (simp add: demo_regex_defs)
  have n: "SubexpNames (expression demo_stage) = [[], ''protocol_version'']"
    by (simp add: demo_regex_defs)
  have 3: "length [''HTTP/1.1'', ''1.1''] = length (SubexpNames (expression demo_stage))"
    using n by simp
  have 4: "(0::nat) < 1" "1 < length (SubexpNames (expression demo_stage))"
    "SubexpNames (expression demo_stage) ! 1 \<noteq> []"
    "\<forall>j. 1 < j \<and> j < length (SubexpNames (expression demo_stage)) \<longrightarrow>
         SubexpNames (expression demo_stage) ! j \<noteq> SubexpNames (expression demo_stage) ! 1"
    using n by simp_all
  have 5: "LabelsFromGroups (config demo_stage)" by (simp add: demo_regex_defs)
  have 6: "Labels ?e ''protocol_version'' = Some ''old''" by (simp add: demo_entry_def)
  show ?thesis
    using labels_from_groups_overwrite[OF 1 2 3 4] 5 6 n by simp
qed

section \<open>Introspection: properties\<close>

lemmas demo_graph_defs = demo_runtime_def demo_graph_def demo_scrape_def demo_relabel_def
  demo_logging_def demo_node_def demo_info_opts_def

lemma projects_components_filter:
  "projects_components deps (map NodeID (filter isComponentNode deps))"
  by (auto simp: projects_components_def)

lemma getComponentDetail_homogeneous: "homogeneous g cn (getComponentDetail f cn g opt)"
  by (simp add: homogeneous_def getComponentDetail_def projects_components_filter)

text \<open>
  C9. The \<open>Info\<close> that \<open>GetComponent\<close> returns, and each \<open>Info\<close> that \<open>ListComponents\<close>
  returns, is homogeneous: its \<open>References\<close> and \<open>ReferencedBy\<close> list the component nodes
  among the dependencies and the dependants of the component, one entry for each, and
  nothing else; an edge to a node that is not a component gives no entry.
\<close>

theorem introspection_skips_non_components:
  "(GetComponent f i opt = Inr info \<longrightarrow>
      (\<exists>m cn. answering f (ModuleID i) = Some m \<and>
         GetByID (loader_Graph m) (LocalID i) = Some cn \<and> isComponentNode cn \<and>
         homogeneous (loader_Graph m) cn info)) \<and>
   (ListComponents f moduleID opt = Inr infos \<longrightarrow>
      (\<exists>m. answering f moduleID = Some m \<and> length infos = length (loader_Components m) \<and>
         (\<forall>k < length infos. homogeneous (loader_Graph m) (loader_Components m ! k) (infos ! k))))"
proof (intro conjI impI)
  assume g: "GetComponent f i opt = Inr info"
  obtain m where m: "answering f (ModuleID i) = Some m"
    and l: "GetComponent_local m \<lparr>ModuleID = [], LocalID = LocalID i\<rparr> opt = Inr info
            \<or> GetComponent_local m i opt = Inr info"
    using g by (auto simp: GetComponent_def answering_def split: if_splits option.splits)
  then obtain cn where "GetByID (loader_Graph m) (LocalID i) = Some cn" "isComponentNode cn"
    "info = getComponentDetail m cn (loader_Graph m) opt"
    by (auto simp: GetComponent_local_def split: option.splits if_splits)
  then show "\<exists>m cn. answering f (ModuleID i) = Some m \<and>
         GetByID (loader_Graph m) (LocalID i) = Some cn \<and> isComponentNode cn \<and>
         homogeneous (loader_Graph m) cn info"
    using m getComponentDetail_homogeneous by blast
next
  assume "ListComponents f moduleID opt = Inr infos"
  then obtain m where m: "answering f moduleID = Some m" and i: "infos = ListComponents_local m opt"
    by (auto simp: ListComponents_def answering_def split: if_splits option.splits)
  have "\<forall>k < length infos. homogeneous (loader_Graph m) (loader_Components m ! k) (infos ! k)"
    using i by (simp add: ListComponents_local_def getComponentDetail_homogeneous)
  then show "\<exists>m. answering f moduleID = Some m \<and> length infos = length (loader_Components m) \<and>
         (\<forall>k < length infos. homogeneous (loader_Graph m) (loader_Components m ! k) (infos ! k))"
    using m i by (auto simp: ListComponents_local_def)
qed

theorem introspection_skips_non_components_witness:
  "\<exists>info. GetComponent demo_runtime \<lparr>ModuleID = [], LocalID = ''prometheus.scrape.x''\<rparr>
             demo_info_opts = Inr info \<and>
          Dependencies demo_graph demo_scrape = [demo_logging, demo_relabel] \<and>
          References info = [''prometheus.relabel.y''] \<and>
          (\<exists>infos. ListComponents demo_runtime [] demo_info_opts = Inr infos \<and>
             ReferencedBy (infos ! 1) = [''prometheus.scrape.x''])"
proof -
  let ?i = "\<lparr>ModuleID = [], LocalID = ''prometheus.scrape.x''\<rparr>"
  obtain info where g: "GetComponent demo_runtime ?i demo_info_opts = Inr info"
    by (simp add: GetComponent_def GetComponent_local_def GetByID_def isComponentNode_def
        demo_graph_defs)
  obtain infos where l: "ListComponents demo_runtime [] demo_info_opts = Inr infos"
    by (simp add: ListComponents_def)
  note t = introspection_skips_non_components[of demo_runtime ?i demo_info_opts info "[]" infos]
  have an: "answering demo_runtime [] = Some demo_runtime" by (simp add: answering_def)
  have gb: "GetByID (loader_Graph demo_runtime) ''prometheus.scrape.x'' = Some demo_scrape"
    by (simp add: GetByID_def demo_graph_defs)
  have deps: "Dependencies demo_graph demo_scrape = [demo_logging, demo_relabel]"
    by (simp add: Dependencies_def demo_graph_defs)
  have dpts: "Dependants demo_graph demo_relabel = [demo_scrape, demo_logging]"
    by (simp add: Dependants_def demo_graph_defs)
  have k: "isComponentNode demo_relabel" "\<not> isComponentNode demo_logging"
    "isComponentNode demo_scrape"
    by (simp_all add: isComponentNode_def demo_graph_defs)
  have one: "\<And>xs x. length xs = Suc 0 \<Longrightarrow> x \<in> set xs \<Longrightarrow> xs = [x::string]"
    by (metis length_0_conv length_Suc_conv set_ConsD empty_iff empty_set)
  have h1: "homogeneous demo_graph demo_scrape info"
    using t g an gb by (auto simp: demo_runtime_def)
  then have "length (References info) = Suc 0" "NodeID demo_relabel \<in> set (References info)"
    using deps k by (auto simp: homogeneous_def projects_components_def)
  then have r1: "References info = [''prometheus.relabel.y'']"
    using one by (simp add: demo_relabel_def demo_node_def)
  have "length infos = 2 \<and> homogeneous demo_graph demo_relabel (infos ! 1)"
    using t l an by (auto simp: demo_runtime_def)
  then have "length (ReferencedBy (infos ! 1)) = Suc 0"
    "NodeID demo_scrape \<in> set (ReferencedBy (infos ! 1))"
    using dpts k by (auto simp: homogeneous_def projects_components_def)
  then have r2: "ReferencedBy (infos ! 1) = [''prometheus.scrape.x'']"
    using one by (simp add: demo_scrape_def demo_node_def)
  show ?thesis using g l deps r1 r2 by blast
qed

end
